theory Spec2Isabelle
  imports
    Main
    "HOL-Library.Word"
    "HOL-Library.AList"
    "HOL-Library.Sublist"
    "HOL-Library.Multiset"
    "HOL-Library.Char_ord"
    "HOL-Library.List_Lexorder"
begin

section \<open>Report viewer back-end: data model\<close>

text \<open>
  The Go structs of \<^verbatim>\<open>internal/db.go\<close>. Go's \<^verbatim>\<open>int64\<close> is a 64-bit word; Go
  strings are byte sequences, here \<^typ>\<open>string\<close> (a list of 8-bit characters).
  \<^verbatim>\<open>ReportTag\<close> embeds \<^verbatim>\<open>Tag\<close>, which is a record extension.
\<close>

type_synonym int64 = "64 word"

record Report =
  Report_Id :: int64
  Report_FileName :: string
  Report_Name :: string
  Report_Author :: string
  Report_Synopsis :: string
  Report_Text :: string

record Tag =
  Tag_Id :: int64
  Tag_Name :: string
  Tag_Color :: string

record ReportTag = Tag +
  Active :: bool

text \<open>
  Every \<^verbatim>\<open>HandleError(err)\<close> with a non-nil error panics. A panic is a value here:
  the kind of failure that raised it.
\<close>

datatype error =
    StoreUnavailable      \<comment> \<open>\<^verbatim>\<open>db.Ping\<close> failed\<close>
  | ErrNoRows             \<comment> \<open>\<^verbatim>\<open>row.Scan\<close> on an empty result\<close>
  | ScanNull              \<comment> \<open>\<^verbatim>\<open>rows.Scan\<close> of a NULL column into a Go string\<close>
  | UniqueViolation       \<comment> \<open>INSERT rejected by a unique index\<close>
  | ForeignKeyViolation   \<comment> \<open>INSERT rejected by a foreign key\<close>
  | FileOpenError         \<comment> \<open>\<^verbatim>\<open>os.Open\<close> failed\<close>
  | ScannerError          \<comment> \<open>\<^verbatim>\<open>scanner.Err()\<close> is non-nil\<close>
  | IndexOutOfRange       \<comment> \<open>run-time panic of a slice index\<close>
  | HttpError             \<comment> \<open>\<^verbatim>\<open>client.Do\<close> failed\<close>
  | IndexUnavailable      \<comment> \<open>the search back-end answered with a status other than 200\<close>
  | MalformedResponse     \<comment> \<open>the search answer is not the JSON the code traverses\<close>
  | SequenceExhausted     \<comment> \<open>the id sequence of table report has reached its maximum\<close>

section \<open>The Go string functions used by the parser\<close>

text \<open>
  \<^verbatim>\<open>strings.Index(s, substr)\<close>: the byte offset of the first occurrence, \<open>None\<close> for
  Go's \<open>-1\<close>. \<^verbatim>\<open>strings.Contains\<close> is \<^verbatim>\<open>Index(s, substr) >= 0\<close>.
\<close>

fun Index :: "string \<Rightarrow> string \<Rightarrow> nat option" where
  "Index [] substr = (if substr = [] then Some 0 else None)"
| "Index (c # s) substr =
     (if prefix substr (c # s) then Some 0 else map_option Suc (Index s substr))"

definition Contains :: "string \<Rightarrow> string \<Rightarrow> bool" where
  "Contains s substr = (Index s substr \<noteq> None)"

text \<open>
  \<^verbatim>\<open>strings.SplitN(s, sep, n)\<close> for a non-empty separator: at most \<open>n\<close> pieces, the
  last one the unsplit remainder; \<open>n = 0\<close> gives no piece at all. (The source calls
  it with \<^verbatim>\<open>":"\<close> and \<open>2\<close>; the empty separator, which explodes the string into
  UTF-8 sequences, and a negative \<open>n\<close> are outside this model.)
\<close>

fun SplitN :: "string \<Rightarrow> string \<Rightarrow> nat \<Rightarrow> string list" where
  "SplitN s sep 0 = []"
| "SplitN s sep (Suc 0) = [s]"
| "SplitN s sep (Suc (Suc n)) =
     (case Index s sep of
        None \<Rightarrow> [s]
      | Some m \<Rightarrow> take m s # SplitN (drop (m + length sep) s) sep (Suc n))"

text \<open>
  \<^verbatim>\<open>strings.TrimSpace\<close> removes leading and trailing white space as Unicode defines
  it (\<^verbatim>\<open>unicode.IsSpace\<close>). On the bytes of a Go string these are the six ASCII
  characters and the UTF-8 encodings of U+0085, U+00A0, U+1680, U+2000 to U+200A,
  U+2028, U+2029, U+202F, U+205F and U+3000. A byte sequence that is not one of
  these encodings decodes to a rune that is not a space, so trimming stops there.
\<close>

definition spaceRunes :: "string list" where
  "spaceRunes =
     [[CHR 0x09], [CHR 0x0A], [CHR 0x0B], [CHR 0x0C], [CHR 0x0D], [CHR 0x20],
      [CHR 0xC2, CHR 0x85], [CHR 0xC2, CHR 0xA0],
      [CHR 0xE1, CHR 0x9A, CHR 0x80],
      [CHR 0xE2, CHR 0x80, CHR 0x80], [CHR 0xE2, CHR 0x80, CHR 0x81],
      [CHR 0xE2, CHR 0x80, CHR 0x82], [CHR 0xE2, CHR 0x80, CHR 0x83],
      [CHR 0xE2, CHR 0x80, CHR 0x84], [CHR 0xE2, CHR 0x80, CHR 0x85],
      [CHR 0xE2, CHR 0x80, CHR 0x86], [CHR 0xE2, CHR 0x80, CHR 0x87],
      [CHR 0xE2, CHR 0x80, CHR 0x88], [CHR 0xE2, CHR 0x80, CHR 0x89],
      [CHR 0xE2, CHR 0x80, CHR 0x8A],
      [CHR 0xE2, CHR 0x80, CHR 0xA8], [CHR 0xE2, CHR 0x80, CHR 0xA9],
      [CHR 0xE2, CHR 0x80, CHR 0xAF],
      [CHR 0xE2, CHR 0x81, CHR 0x9F],
      [CHR 0xE3, CHR 0x80, CHR 0x80]]"

definition leadingSpace :: "string \<Rightarrow> string option" where
  "leadingSpace s = find (\<lambda>r. prefix r s) spaceRunes"

definition trailingSpace :: "string \<Rightarrow> string option" where
  "trailingSpace s = find (\<lambda>r. prefix (rev r) (rev s)) spaceRunes"

function TrimLeftFunc :: "string \<Rightarrow> string" where
  "TrimLeftFunc s =
     (case leadingSpace s of
        None \<Rightarrow> s
      | Some r \<Rightarrow> TrimLeftFunc (drop (length r) s))"
  by pat_completeness auto
termination
proof (relation "measure length")
  show "wf (measure length)" by simp
next
  fix s r
  assume "leadingSpace s = Some r"
  then have "r \<in> set spaceRunes" and "prefix r s"
    by (auto simp: leadingSpace_def find_Some_iff)
  then have "r \<noteq> []" and "length r \<le> length s"
    using prefix_length_le [of r s] by (auto simp: spaceRunes_def)
  then show "(drop (length r) s, s) \<in> measure length"
    by (cases r) simp_all
qed

function TrimRightFunc :: "string \<Rightarrow> string" where
  "TrimRightFunc s =
     (case trailingSpace s of
        None \<Rightarrow> s
      | Some r \<Rightarrow> TrimRightFunc (take (length s - length r) s))"
  by pat_completeness auto
termination
proof (relation "measure length")
  show "wf (measure length)" by simp
next
  fix s r
  assume "trailingSpace s = Some r"
  then have "r \<in> set spaceRunes" and "prefix (rev r) (rev s)"
    by (auto simp: trailingSpace_def find_Some_iff)
  then have "r \<noteq> []" and "length r \<le> length s"
    using prefix_length_le [of "rev r" "rev s"] by (auto simp: spaceRunes_def)
  then show "(take (length s - length r) s, s) \<in> measure length"
    by (cases r) simp_all
qed

declare TrimLeftFunc.simps [simp del] TrimRightFunc.simps [simp del]

definition TrimSpace :: "string \<Rightarrow> string" where
  "TrimSpace s = TrimRightFunc (TrimLeftFunc s)"

section \<open>The text parser\<close>

text \<open>
  \<^verbatim>\<open>ExtractValueFromLine\<close> (\<^verbatim>\<open>internal/util.go\<close>). The index expression
  \<^verbatim>\<open>stringArray[1]\<close> panics in Go when the slice has fewer than two elements; the
  model keeps that branch.
\<close>

definition ExtractValueFromLine :: "string \<Rightarrow> string \<Rightarrow> error + string" where
  "ExtractValueFromLine line key =
     (if Contains line key then
        (let stringArray = SplitN line '':'' 2 in
         if 1 < length stringArray then Inr (TrimSpace (stringArray ! 1))
         else Inl IndexOutOfRange)
      else Inr '''')"

text \<open>
  The scan loop of \<^verbatim>\<open>AddReportToDatabaseAndElasticSearch\<close>: its five local
  variables (\<^verbatim>\<open>text\<close> is \<open>fullText\<close> here), and one iteration per line that
  \<^verbatim>\<open>scanner.Text()\<close> delivers. The counter is a Go \<^verbatim>\<open>int\<close>; it counts the lines
  of one file and stays far below \<open>2^63\<close>.
\<close>

record scan_vars =
  counter :: nat
  name :: string
  author :: string
  fullText :: string
  synopsis :: string

definition scan_init :: scan_vars where
  "scan_init = \<lparr>counter = 0, name = '''', author = '''', fullText = '''', synopsis = ''''\<rparr>"

definition scan_line :: "string \<Rightarrow> scan_vars \<Rightarrow> error + scan_vars" where
  "scan_line line v =
     (let v1 = (if counter v < 5 then v\<lparr>synopsis := synopsis v @ line @ ''\<newline>''\<rparr> else v) in
      case (if name v1 = '''' then ExtractValueFromLine line ''Title:'' else Inr (name v1)) of
        Inl e \<Rightarrow> Inl e
      | Inr n \<Rightarrow>
          (let v2 = v1\<lparr>name := n\<rparr> in
           case (if author v2 = '''' then ExtractValueFromLine line ''Author:''
                 else Inr (author v2)) of
             Inl e \<Rightarrow> Inl e
           | Inr a \<Rightarrow>
               Inr (v2\<lparr>author := a, fullText := fullText v2 @ line @ ''\<newline>'',
                        counter := counter v2 + 1\<rparr>)))"

fun scan_loop :: "string list \<Rightarrow> scan_vars \<Rightarrow> error + scan_vars" where
  "scan_loop [] v = Inr v"
| "scan_loop (line # rest) v =
     (case scan_line line v of Inl e \<Rightarrow> Inl e | Inr v' \<Rightarrow> scan_loop rest v')"

text \<open>After the loop: the ellipsis is appended when the synopsis is not empty.\<close>

definition finish_synopsis :: "scan_vars \<Rightarrow> scan_vars" where
  "finish_synopsis v =
     (if 0 < length (synopsis v) then v\<lparr>synopsis := synopsis v @ ''...''\<rparr> else v)"

text \<open>
  A static text file, as \<^verbatim>\<open>bufio.Scanner\<close> reads it: the lines it delivers, and
  whether \<^verbatim>\<open>scanner.Err()\<close> is non-nil once it has stopped (a line longer than
  the scanner's 64 KiB token limit, or a read error).
\<close>

datatype text_file = TextFile (file_lines: "string list") (scan_failed: bool)

text \<open>
  The parse block of \<^verbatim>\<open>AddReportToDatabaseAndElasticSearch\<close>: the scan loop, the
  check of \<^verbatim>\<open>scanner.Err()\<close>, which panics on an error, and the ellipsis.
\<close>

definition parse_file :: "text_file \<Rightarrow> error + scan_vars" where
  "parse_file file =
     (case scan_loop (file_lines file) scan_init of
        Inl e \<Rightarrow> Inl e
      | Inr v0 \<Rightarrow>
          if scan_failed file then Inl ScannerError else Inr (finish_synopsis v0))"

section \<open>The relational store, the text files and the search index\<close>

text \<open>
  The tables of the schema in \<^verbatim>\<open>README.md\<close>. A row of table \<^verbatim>\<open>report\<close> has the
  columns of the Go struct \<^verbatim>\<open>Report\<close>, all of them NOT NULL. In table \<^verbatim>\<open>tag\<close> the
  column \<^verbatim>\<open>color\<close> is nullable.
\<close>

record tag_row =
  tag_id :: int64
  tag_name :: string
  tag_color :: "string option"

record report_tag_row =
  rt_report_id :: int64
  rt_tag_id :: int64
  rt_active :: bool

text \<open>The requests that reach the search index.\<close>

datatype es_request = EsPut int64 Report | EsSearch string

text \<open>
  Everything the functions read and write: whether \<^verbatim>\<open>db.Ping()\<close> succeeds, the
  three tables, the last value of the \<^verbatim>\<open>bigserial\<close> sequence of \<^verbatim>\<open>report.id\<close>,
  the directory of static text files, whether the search index accepts a
  connection, and the requests sent to it so far.
\<close>

record world =
  dbReachable :: bool
  report :: "Report list"
  report_id_seq :: int64
  tag :: "tag_row list"
  report_tag :: "report_tag_row list"
  staticTextFiles :: "(string \<times> text_file) list"
  esReachable :: bool
  esRequests :: "es_request list"

text \<open>
  A function that only reads returns \<open>error + result\<close>. A function that writes
  returns \<open>error \<times> world + world\<close>: there are no transactions, so a panic leaves
  the writes made before it, and \<open>Inl\<close> carries the world at the panic.
\<close>

type_synonym outcome = "error \<times> world + world"

text \<open>A Go \<^verbatim>\<open>for _, x := range list\<close> loop whose body may panic.\<close>

fun forEach :: "(world \<Rightarrow> 'a \<Rightarrow> outcome) \<Rightarrow> 'a list \<Rightarrow> world \<Rightarrow> outcome" where
  "forEach f [] w = Inr w"
| "forEach f (x # xs) w = (case f w x of Inl e \<Rightarrow> Inl e | Inr w' \<Rightarrow> forEach f xs w')"

subsection \<open>Reports\<close>

text \<open>
  \<^verbatim>\<open>INSERT INTO report(name, author, file_name, synopsis, text)\<close>: the id comes
  from the sequence, which advances even when the row is rejected; the unique
  indexes on \<^verbatim>\<open>id\<close> and \<^verbatim>\<open>file_name\<close> reject a duplicate.
\<close>

definition insert_report :: "world \<Rightarrow> string \<Rightarrow> string \<Rightarrow> string \<Rightarrow> string \<Rightarrow> string \<Rightarrow> outcome"
  where
  "insert_report w nm au fileName syn txt =
     (if report_id_seq w = 0x7FFFFFFFFFFFFFFF then Inl (SequenceExhausted, w)
      else
        (let newId = report_id_seq w + 1; w1 = w\<lparr>report_id_seq := newId\<rparr> in
         if \<exists>r\<in>set (report w). Report_Id r = newId \<or> Report_FileName r = fileName
         then Inl (UniqueViolation, w1)
         else Inr (w1\<lparr>report := report w @
                [\<lparr>Report_Id = newId, Report_FileName = fileName, Report_Name = nm,
                  Report_Author = au, Report_Synopsis = syn, Report_Text = txt\<rparr>]\<rparr>)))"

text \<open>
  \<^verbatim>\<open>DoHttpPutRequest\<close>: only a failed connection panics; the status of the answer
  is logged and not looked at.
\<close>

definition DoHttpPutRequest :: "world \<Rightarrow> int64 \<Rightarrow> Report \<Rightarrow> outcome" where
  "DoHttpPutRequest w docId doc =
     (if esReachable w then Inr (w\<lparr>esRequests := esRequests w @ [EsPut docId doc]\<rparr>)
      else Inl (HttpError, w))"

definition AddReportToDatabaseAndElasticSearch :: "world \<Rightarrow> string \<Rightarrow> outcome" where
  "AddReportToDatabaseAndElasticSearch w fileName =
     (if \<not> dbReachable w then Inl (StoreUnavailable, w)
      else if length (filter (\<lambda>r. Report_FileName r = fileName) (report w)) \<noteq> 0 then Inr w
      else
        (case map_of (staticTextFiles w) fileName of
           None \<Rightarrow> Inl (FileOpenError, w)
         | Some file \<Rightarrow>
             (case parse_file file of
                Inl e \<Rightarrow> Inl (e, w)
              | Inr v \<Rightarrow>
                  (case insert_report w (name v) (author v) fileName (synopsis v) (fullText v) of
                     Inl e \<Rightarrow> Inl e
                   | Inr w1 \<Rightarrow>
                       (case find (\<lambda>r. Report_FileName r = fileName) (report w1) of
                          None \<Rightarrow> Inl (ErrNoRows, w1)
                        | Some row \<Rightarrow>
                            DoHttpPutRequest w1 (Report_Id row)
                              \<lparr>Report_Id = Report_Id row, Report_FileName = fileName,
                               Report_Name = name v, Report_Author = author v,
                               Report_Synopsis = synopsis v, Report_Text = fullText v\<rparr>)))))"

text \<open>\<^verbatim>\<open>GetReportById\<close>: \<^verbatim>\<open>row.Scan\<close> yields \<^verbatim>\<open>sql.ErrNoRows\<close> when no row has the id.\<close>

definition GetReportById :: "world \<Rightarrow> int64 \<Rightarrow> error + Report" where
  "GetReportById w reportId =
     (if \<not> dbReachable w then Inl StoreUnavailable
      else
        (case find (\<lambda>r. Report_Id r = reportId) (report w) of
           None \<Rightarrow> Inl ErrNoRows
         | Some r \<Rightarrow>
             Inr \<lparr>Report_Id = Report_Id r, Report_FileName = Report_FileName r,
                  Report_Name = Report_Name r, Report_Author = Report_Author r,
                  Report_Synopsis = Report_Synopsis r, Report_Text = Report_Text r\<rparr>))"

text \<open>
  \<^verbatim>\<open>GetAllReportList\<close>: the column \<^verbatim>\<open>text\<close> is not selected and the field is set to
  the empty string. \<^verbatim>\<open>ORDER BY name ASC\<close> is the byte-wise order of the names here;
  rows of equal name keep their table order.
\<close>

definition GetAllReportList :: "world \<Rightarrow> error + Report list" where
  "GetAllReportList w =
     (if \<not> dbReachable w then Inl StoreUnavailable
      else
        Inr (map (\<lambda>r. \<lparr>Report_Id = Report_Id r, Report_FileName = Report_FileName r,
                        Report_Name = Report_Name r, Report_Author = Report_Author r,
                        Report_Synopsis = Report_Synopsis r, Report_Text = ''''\<rparr>)
               (sort_key Report_Name (report w))))"

definition DoesReportWithIdExist :: "world \<Rightarrow> int64 \<Rightarrow> error + bool" where
  "DoesReportWithIdExist w reportId =
     (if \<not> dbReachable w then Inl StoreUnavailable
      else Inr (0 < length (filter (\<lambda>r. Report_Id r = reportId) (report w))))"

subsection \<open>Tags of a report\<close>

text \<open>
  \<^verbatim>\<open>GetReportTagListByReportId\<close>: the two inner joins, then one \<^verbatim>\<open>rows.Scan\<close> per
  row. Scanning a NULL colour into a Go string is an error. \<^verbatim>\<open>ORDER BY t.name\<close>
  is the byte-wise order of the tag names.
\<close>

definition report_tag_join :: "world \<Rightarrow> int64 \<Rightarrow> (tag_row \<times> bool) list" where
  "report_tag_join w reportId =
     sort_key (\<lambda>(t, a). tag_name t)
       [(t, rt_active rt).
          r \<leftarrow> report w, Report_Id r = reportId,
          rt \<leftarrow> report_tag w, Report_Id r = rt_report_id rt,
          t \<leftarrow> tag w, rt_tag_id rt = tag_id t]"

fun scan_tag_rows :: "(tag_row \<times> bool) list \<Rightarrow> error + ReportTag list" where
  "scan_tag_rows [] = Inr []"
| "scan_tag_rows ((t, a) # rows) =
     (case tag_color t of
        None \<Rightarrow> Inl ScanNull
      | Some color \<Rightarrow>
          (case scan_tag_rows rows of
             Inl e \<Rightarrow> Inl e
           | Inr reportTagList \<Rightarrow>
               Inr (\<lparr>Tag_Id = tag_id t, Tag_Name = tag_name t, Tag_Color = color, Active = a\<rparr>
                    # reportTagList)))"

definition GetReportTagListByReportId :: "world \<Rightarrow> int64 \<Rightarrow> error + ReportTag list" where
  "GetReportTagListByReportId w reportId =
     (if \<not> dbReachable w then Inl StoreUnavailable
      else scan_tag_rows (report_tag_join w reportId))"

text \<open>
  \<^verbatim>\<open>insertReportTag\<close>: the unique index on \<^verbatim>\<open>(report_id, tag_id)\<close> and the two
  foreign keys can reject the row.
\<close>

definition insertReportTag :: "int64 \<Rightarrow> world \<Rightarrow> ReportTag \<Rightarrow> outcome" where
  "insertReportTag reportId w t =
     (if \<not> dbReachable w then Inl (StoreUnavailable, w)
      else if \<exists>row\<in>set (report_tag w). rt_report_id row = reportId \<and> rt_tag_id row = Tag_Id t
      then Inl (UniqueViolation, w)
      else if reportId \<notin> Report_Id ` set (report w) \<or> Tag_Id t \<notin> tag_id ` set (tag w)
      then Inl (ForeignKeyViolation, w)
      else Inr (w\<lparr>report_tag := report_tag w @
             [\<lparr>rt_report_id = reportId, rt_tag_id = Tag_Id t, rt_active = Active t\<rparr>]\<rparr>))"

definition deleteReportTag :: "int64 \<Rightarrow> world \<Rightarrow> ReportTag \<Rightarrow> outcome" where
  "deleteReportTag reportId w t =
     (if \<not> dbReachable w then Inl (StoreUnavailable, w)
      else Inr (w\<lparr>report_tag :=
             filter (\<lambda>row. \<not> (rt_report_id row = reportId \<and> rt_tag_id row = Tag_Id t))
               (report_tag w)\<rparr>))"

definition updateReportTag :: "int64 \<Rightarrow> world \<Rightarrow> ReportTag \<Rightarrow> outcome" where
  "updateReportTag reportId w t =
     (if \<not> dbReachable w then Inl (StoreUnavailable, w)
      else Inr (w\<lparr>report_tag :=
             map (\<lambda>row. if rt_report_id row = reportId \<and> rt_tag_id row = Tag_Id t
                        then row\<lparr>rt_active := Active t\<rparr> else row)
               (report_tag w)\<rparr>))"

subsection \<open>The tag diff of \<^verbatim>\<open>UpdateReportTagListByReportId\<close>\<close>

text \<open>
  A Go \<^verbatim>\<open>map[int64]ReportTag\<close> is an association list with one entry per key.
  Filling it from a list keeps the last entry of each tag id.
\<close>

type_synonym tag_map = "(int64 \<times> ReportTag) list"

definition list_to_map :: "ReportTag list \<Rightarrow> tag_map" where
  "list_to_map reportTagList =
     fold (\<lambda>reportTag m. AList.update (Tag_Id reportTag) reportTag m) reportTagList []"

text \<open>
  The loop over \<^verbatim>\<open>clientReportTagList\<close>; its state is \<^verbatim>\<open>reportTagsToUpdate\<close>,
  \<^verbatim>\<open>serverReportTagMap\<close> and \<^verbatim>\<open>clientReportTagMap\<close>.
\<close>

fun diff_loop :: "ReportTag list \<Rightarrow> ReportTag list \<times> tag_map \<times> tag_map
    \<Rightarrow> ReportTag list \<times> tag_map \<times> tag_map" where
  "diff_loop [] st = st"
| "diff_loop (clientReportTag # rest) (toUpdate, serverMap, clientMap) =
     (case map_of serverMap (Tag_Id clientReportTag) of
        Some serverReportTag \<Rightarrow>
          diff_loop rest
            (if Active serverReportTag \<noteq> Active clientReportTag
             then toUpdate @ [clientReportTag] else toUpdate,
             AList.delete (Tag_Id clientReportTag) serverMap,
             AList.delete (Tag_Id clientReportTag) clientMap)
      | None \<Rightarrow> diff_loop rest (toUpdate, serverMap, clientMap))"

text \<open>
  Go does not fix the order in which \<^verbatim>\<open>range\<close> visits a map. The order is the
  parameter \<open>rangeOrder\<close>: it rearranges the values of the map, and the theorems
  below hold for every rearrangement. The result is
  \<open>(reportTagsToInsert, reportTagsToUpdate, reportTagsToDelete)\<close>.
\<close>

definition tag_diff :: "(ReportTag list \<Rightarrow> ReportTag list) \<Rightarrow> ReportTag list \<Rightarrow> ReportTag list
    \<Rightarrow> ReportTag list \<times> ReportTag list \<times> ReportTag list" where
  "tag_diff rangeOrder serverReportTagList clientReportTagList =
     (let clientReportTagMap = list_to_map clientReportTagList;
          serverReportTagMap = list_to_map serverReportTagList;
          (reportTagsToUpdate, serverRest, clientRest) =
             diff_loop clientReportTagList ([], serverReportTagMap, clientReportTagMap);
          reportTagsToInsert = rangeOrder (map snd clientRest);
          reportTagsToDelete = rangeOrder (map snd serverRest)
      in (reportTagsToInsert, reportTagsToUpdate, reportTagsToDelete))"

definition UpdateReportTagListByReportId ::
    "(ReportTag list \<Rightarrow> ReportTag list) \<Rightarrow> world \<Rightarrow> int64 \<Rightarrow> ReportTag list \<Rightarrow> outcome" where
  "UpdateReportTagListByReportId rangeOrder w reportId clientReportTagList =
     (if \<not> dbReachable w then Inl (StoreUnavailable, w)
      else
        (case GetReportTagListByReportId w reportId of
           Inl e \<Rightarrow> Inl (e, w)
         | Inr serverReportTagList \<Rightarrow>
             (case tag_diff rangeOrder serverReportTagList clientReportTagList of
                (reportTagsToInsert, reportTagsToUpdate, reportTagsToDelete) \<Rightarrow>
                  (case forEach (insertReportTag reportId) reportTagsToInsert w of
                     Inl e \<Rightarrow> Inl e
                   | Inr w1 \<Rightarrow>
                       (case forEach (updateReportTag reportId) reportTagsToUpdate w1 of
                          Inl e \<Rightarrow> Inl e
                        | Inr w2 \<Rightarrow> forEach (deleteReportTag reportId) reportTagsToDelete w2)))))"

subsection \<open>Search and the HTTP handlers\<close>

text \<open>
  A search hit is a \<^verbatim>\<open>Report\<close> with a \<^verbatim>\<open>float64\<close> score, which the code only
  passes on. The answer of the search index to a query is a parameter: a status
  other than 200, a body of status 200 that is not the JSON the code traverses,
  or the hits.
\<close>

typedecl float64

record EsReport = Report +
  Score :: float64

datatype es_response = EsNotOK | EsMalformed | EsHits "EsReport list"

definition GetReportListForSearchTerm ::
    "(string \<Rightarrow> es_response) \<Rightarrow> world \<Rightarrow> string \<Rightarrow> error \<times> world + EsReport list \<times> world" where
  "GetReportListForSearchTerm esAnswer w searchTerm =
     (if \<not> esReachable w then Inl (HttpError, w)
      else
        (let w1 = w\<lparr>esRequests := esRequests w @ [EsSearch searchTerm]\<rparr> in
         case esAnswer searchTerm of
           EsHits reportList \<Rightarrow> Inr (reportList, w1)
         | EsMalformed \<Rightarrow> Inl (MalformedResponse, w1)
         | EsNotOK \<Rightarrow> Inl (IndexUnavailable, w1)))"

text \<open>
  A handler answers with a status and a body. Its deferred \<^verbatim>\<open>recover\<close> turns every
  panic into status 500 with a fixed message. The id parameter of a handler is
  the result of \<^verbatim>\<open>strconv.ParseInt\<close>, \<open>None\<close> when that fails; the body of the
  update request is the result of \<^verbatim>\<open>json.Unmarshal\<close>, \<open>None\<close> when that fails.
\<close>

datatype body =
    Message string
  | NoReportFoundWithId int64
  | ReportJson Report
  | ReportListJson "Report list"
  | EsReportListJson "EsReport list"
  | ReportTagListJson "ReportTag list"

type_synonym response = "nat \<times> body"

definition HandleGetAllReportList :: "world \<Rightarrow> response \<times> world" where
  "HandleGetAllReportList w =
     (case GetAllReportList w of
        Inl e \<Rightarrow> ((500, Message ''Error in getting report information.''), w)
      | Inr reportList \<Rightarrow> ((200, ReportListJson reportList), w))"

definition HandleGetReportList ::
    "(string \<Rightarrow> es_response) \<Rightarrow> world \<Rightarrow> string \<Rightarrow> response \<times> world" where
  "HandleGetReportList esAnswer w searchTerm =
     (if searchTerm = '''' then HandleGetAllReportList w
      else
        (case GetReportListForSearchTerm esAnswer w searchTerm of
           Inl (e, w') \<Rightarrow>
             ((500, Message ''There was an error in getting report search results.''), w')
         | Inr (reportList, w') \<Rightarrow> ((200, EsReportListJson reportList), w')))"

definition HandleGetReport :: "world \<Rightarrow> int64 option \<Rightarrow> response \<times> world" where
  "HandleGetReport w idParam =
     (case idParam of
        None \<Rightarrow> ((500, Message ''Error in getting report.''), w)
      | Some reportId \<Rightarrow>
          (case GetReportById w reportId of
             Inl e \<Rightarrow> ((500, Message ''Error in getting report.''), w)
           | Inr r \<Rightarrow> ((200, ReportJson r), w)))"

definition HandleGetReportTags :: "world \<Rightarrow> int64 option \<Rightarrow> response \<times> world" where
  "HandleGetReportTags w idParam =
     (case idParam of
        None \<Rightarrow> ((500, Message ''Error in getting report tags.''), w)
      | Some reportId \<Rightarrow>
          (case GetReportTagListByReportId w reportId of
             Inl e \<Rightarrow> ((500, Message ''Error in getting report tags.''), w)
           | Inr reportTagList \<Rightarrow> ((200, ReportTagListJson reportTagList), w)))"

definition HandleUpdateReportTags ::
    "(ReportTag list \<Rightarrow> ReportTag list) \<Rightarrow> world \<Rightarrow> int64 option \<Rightarrow> ReportTag list option
      \<Rightarrow> response \<times> world" where
  "HandleUpdateReportTags rangeOrder w idParam jsonBody =
     (case idParam of
        None \<Rightarrow> ((500, Message ''Error in getting updating report tags.''), w)
      | Some reportId \<Rightarrow>
          (case DoesReportWithIdExist w reportId of
             Inl e \<Rightarrow> ((500, Message ''Error in getting updating report tags.''), w)
           | Inr False \<Rightarrow> ((400, NoReportFoundWithId reportId), w)
           | Inr True \<Rightarrow>
               (case jsonBody of
                  None \<Rightarrow> ((500, Message ''Error in getting updating report tags.''), w)
                | Some clientReportTagList \<Rightarrow>
                    (case UpdateReportTagListByReportId rangeOrder w reportId clientReportTagList of
                       Inl (e, w') \<Rightarrow>
                         ((500, Message ''Error in getting updating report tags.''), w')
                     | Inr w' \<Rightarrow>
                         ((200, Message ''Successfully updated the reports tags.''), w')))))"

section \<open>Notions used in the statements and proofs\<close>

text \<open>
  The value of a line for a key, without the error branch; one iteration of the
  scan loop as a function; and the first non-empty value among the lines.
\<close>

definition value_of :: "string \<Rightarrow> string \<Rightarrow> string" where
  "value_of line key = (case ExtractValueFromLine line key of Inr v \<Rightarrow> v | Inl e \<Rightarrow> '''')"

definition line_step :: "string \<Rightarrow> scan_vars \<Rightarrow> scan_vars" where
  "line_step line v =
     \<lparr>counter = counter v + 1,
      name = (if name v = '''' then value_of line ''Title:'' else name v),
      author = (if author v = '''' then value_of line ''Author:'' else author v),
      fullText = fullText v @ line @ ''\<newline>'',
      synopsis = (if counter v < 5 then synopsis v @ line @ ''\<newline>'' else synopsis v)\<rparr>"

fun first_value :: "string \<Rightarrow> string list \<Rightarrow> string" where
  "first_value key [] = ''''"
| "first_value key (l # ls) =
     (if value_of l key = '''' then first_value key ls else value_of l key)"

text \<open>The world an outcome leaves behind, panic or not.\<close>

fun state_of :: "outcome \<Rightarrow> world" where
  "state_of (Inl (e, w)) = w"
| "state_of (Inr w) = w"

text \<open>A small world on which the statements are evaluated.\<close>

definition example_world :: world where
  "example_world = \<lparr>dbReachable = True,
     report = [\<lparr>Report_Id = 1, Report_FileName = ''b.txt'', Report_Name = ''Zeta'',
                Report_Author = ''Ann'', Report_Synopsis = ''s...'', Report_Text = ''full text b''\<rparr>,
               \<lparr>Report_Id = 2, Report_FileName = ''a.txt'', Report_Name = ''Alpha'',
                Report_Author = ''Bob'', Report_Synopsis = ''t...'', Report_Text = ''full text a''\<rparr>],
     report_id_seq = 2,
     tag = [\<lparr>tag_id = 1, tag_name = ''Fiction'', tag_color = Some ''#000000''\<rparr>,
            \<lparr>tag_id = 2, tag_name = ''Horror'', tag_color = Some ''#FF0000''\<rparr>,
            \<lparr>tag_id = 3, tag_name = ''Adventure'', tag_color = Some ''#00FF00''\<rparr>],
     report_tag = [\<lparr>rt_report_id = 1, rt_tag_id = 1, rt_active = True\<rparr>,
                   \<lparr>rt_report_id = 1, rt_tag_id = 2, rt_active = False\<rparr>],
     staticTextFiles = [(''a.txt'', TextFile [''Title: Alpha'', ''Author: Bob''] False),
                        (''b.txt'', TextFile [''Title: Zeta''] False),
                        (''c.txt'', TextFile [''Title: Gamma'', ''Author: Cy'', ''body''] False)],
     esReachable = True,
     esRequests = []\<rparr>"

text \<open>
  The example world with one text file on which the scanner fails: it delivers
  the first line and then meets a line beyond its token limit.
\<close>

definition example_world_long_line :: world where
  "example_world_long_line =
     example_world\<lparr>staticTextFiles := [(''d.txt'', TextFile [''Title: Delta''] True)]\<rparr>"

text \<open>
  The active flag that the store holds for a report and a tag, \<open>None\<close> when there is
  no association row.
\<close>

definition active_of :: "world \<Rightarrow> int64 \<Rightarrow> int64 \<Rightarrow> bool option" where
  "active_of w reportId tagId =
     map_option rt_active
       (find (\<lambda>row. rt_report_id row = reportId \<and> rt_tag_id row = tagId) (report_tag w))"

text \<open>
  The constraints of table \<open>report_tag\<close> in the schema: the unique index on
  \<open>(report_id, tag_id)\<close> and the foreign keys into \<open>report\<close> and \<open>tag\<close>.
\<close>

definition store_consistent :: "world \<Rightarrow> bool" where
  "store_consistent w \<longleftrightarrow>
     distinct (map (\<lambda>row. (rt_report_id row, rt_tag_id row)) (report_tag w)) \<and>
     (\<forall>row\<in>set (report_tag w).
        rt_report_id row \<in> Report_Id ` set (report w) \<and> rt_tag_id row \<in> tag_id ` set (tag w))"

text \<open>A client list gives one flag per tag id: entries of the same tag id agree.\<close>

definition flags_agree :: "ReportTag list \<Rightarrow> bool" where
  "flags_agree l \<longleftrightarrow> (\<forall>x\<in>set l. \<forall>y\<in>set l. Tag_Id x = Tag_Id y \<longrightarrow> Active x = Active y)"

text \<open>
  The single statements that \<open>UpdateReportTagListByReportId\<close> runs, as values, so
  that they can be applied in another order; the tag id a statement touches, its
  effect on the flags of the report, and the condition under which the store
  accepts it.
\<close>

datatype tag_op = InsertOp ReportTag | UpdateOp ReportTag | DeleteOp ReportTag

fun apply_op :: "int64 \<Rightarrow> world \<Rightarrow> tag_op \<Rightarrow> outcome" where
  "apply_op reportId w (InsertOp t) = insertReportTag reportId w t"
| "apply_op reportId w (UpdateOp t) = updateReportTag reportId w t"
| "apply_op reportId w (DeleteOp t) = deleteReportTag reportId w t"

fun op_key :: "tag_op \<Rightarrow> int64" where
  "op_key (InsertOp t) = Tag_Id t"
| "op_key (UpdateOp t) = Tag_Id t"
| "op_key (DeleteOp t) = Tag_Id t"

fun op_effect :: "tag_op \<Rightarrow> (int64 \<Rightarrow> bool option) \<Rightarrow> (int64 \<Rightarrow> bool option)" where
  "op_effect (InsertOp t) A = A(Tag_Id t \<mapsto> Active t)"
| "op_effect (UpdateOp t) A = (if A (Tag_Id t) = None then A else A(Tag_Id t \<mapsto> Active t))"
| "op_effect (DeleteOp t) A = A(Tag_Id t := None)"

fun op_ok :: "int64 \<Rightarrow> world \<Rightarrow> tag_op \<Rightarrow> bool" where
  "op_ok reportId w (InsertOp t) =
     (active_of w reportId (Tag_Id t) = None \<and> reportId \<in> Report_Id ` set (report w) \<and>
      Tag_Id t \<in> tag_id ` set (tag w))"
| "op_ok reportId w (UpdateOp t) = True"
| "op_ok reportId w (DeleteOp t) = True"

text \<open>The updates that the loop over the client list collects.\<close>

fun updates_of :: "ReportTag list \<Rightarrow> tag_map \<Rightarrow> ReportTag list" where
  "updates_of [] serverMap = []"
| "updates_of (c # cs) serverMap =
     (case map_of serverMap (Tag_Id c) of
        Some s \<Rightarrow> (if Active s \<noteq> Active c then [c] else [])
                  @ updates_of cs (AList.delete (Tag_Id c) serverMap)
      | None \<Rightarrow> updates_of cs serverMap)"

text \<open>
  Two client lists for the example world: one that gives each tag once, and one
  that names tag 1 twice with different flags.
\<close>

definition example_client :: "ReportTag list" where
  "example_client =
     [\<lparr>Tag_Id = 1, Tag_Name = ''Fiction'', Tag_Color = ''#000000'', Active = False\<rparr>,
      \<lparr>Tag_Id = 3, Tag_Name = ''Adventure'', Tag_Color = ''#00FF00'', Active = True\<rparr>]"

definition conflicting_client :: "ReportTag list" where
  "conflicting_client =
     [\<lparr>Tag_Id = 1, Tag_Name = ''Fiction'', Tag_Color = ''#000000'', Active = True\<rparr>,
      \<lparr>Tag_Id = 1, Tag_Name = ''Fiction'', Tag_Color = ''#000000'', Active = False\<rparr>]"

text \<open>
  The example world with a NULL colour for tag 3, which the schema allows.
\<close>

definition example_world_null_colour :: world where
  "example_world_null_colour =
     example_world\<lparr>tag := [\<lparr>tag_id = 1, tag_name = ''Fiction'', tag_color = Some ''#000000''\<rparr>,
                           \<lparr>tag_id = 2, tag_name = ''Horror'', tag_color = Some ''#FF0000''\<rparr>,
                           \<lparr>tag_id = 3, tag_name = ''Adventure'', tag_color = None\<rparr>]\<rparr>"


section \<open>Properties of the text parser\<close>

lemma Index_Some_set: "Index s sub = Some i \<Longrightarrow> set sub \<subseteq> set s"
proof (induction s arbitrary: i)
  case Nil
  then show ?case by (simp split: if_splits)
next
  case (Cons c s)
  show ?case
  proof (cases "prefix sub (c # s)")
    case True
    then show ?thesis by (rule set_mono_prefix)
  next
    case False
    with Cons.prems obtain j where "Index s sub = Some j" by auto
    from Cons.IH [OF this] show ?thesis by auto
  qed
qed

lemma Index_char_Some: "c \<in> set s \<Longrightarrow> \<exists>m. Index s [c] = Some m"
  by (induction s) auto

lemma SplitN_colon:
  assumes "Contains line key" and "CHR '':'' \<in> set key"
  shows "\<exists>m. Index line '':'' = Some m \<and> SplitN line '':'' 2 = [take m line, drop (m + 1) line]"
proof -
  from assms(1) obtain i where "Index line key = Some i"
    by (auto simp: Contains_def)
  then have "set key \<subseteq> set line" by (rule Index_Some_set)
  with assms(2) have "CHR '':'' \<in> set line" by auto
  then obtain m where "Index line '':'' = Some m"
    using Index_char_Some by blast
  then show ?thesis by (simp add: numeral_2_eq_2)
qed

lemma ExtractValueFromLine_Inr:
  assumes "CHR '':'' \<in> set key"
  shows "\<exists>v. ExtractValueFromLine line key = Inr v"
proof (cases "Contains line key")
  case True
  from SplitN_colon [OF True assms] show ?thesis
    by (auto simp: ExtractValueFromLine_def True)
next
  case False
  then show ?thesis by (simp add: ExtractValueFromLine_def)
qed

lemma ExtractValueFromLine_value_of:
  "CHR '':'' \<in> set key \<Longrightarrow> ExtractValueFromLine line key = Inr (value_of line key)"
  using ExtractValueFromLine_Inr [of key line] by (auto simp: value_of_def)

lemma scan_line_step: "scan_line line v = Inr (line_step line v)"
proof -
  have n: "ExtractValueFromLine line ''Title:'' = Inr (value_of line ''Title:'')"
    by (rule ExtractValueFromLine_value_of) simp
  have a: "ExtractValueFromLine line ''Author:'' = Inr (value_of line ''Author:'')"
    by (rule ExtractValueFromLine_value_of) simp
  show ?thesis
    by (simp add: n a scan_line_def line_step_def Let_def)
qed

lemma scan_loop_fold: "scan_loop ls v = Inr (fold line_step ls v)"
  by (induction ls arbitrary: v) (simp_all add: scan_line_step)

lemma line_step_fields:
  "counter (line_step l v) = counter v + 1"
  "name (line_step l v) = (if name v = [] then value_of l ''Title:'' else name v)"
  "author (line_step l v) = (if author v = [] then value_of l ''Author:'' else author v)"
  "fullText (line_step l v) = fullText v @ l @ ''\<newline>''"
  "synopsis (line_step l v) = (if counter v < 5 then synopsis v @ l @ ''\<newline>'' else synopsis v)"
  by (simp_all add: line_step_def)

lemma fold_counter: "counter (fold line_step ls v) = counter v + length ls"
  by (induction ls arbitrary: v) (simp_all add: line_step_fields)

lemma fold_name:
  "name (fold line_step ls v) = (if name v = [] then first_value ''Title:'' ls else name v)"
  by (induction ls arbitrary: v) (simp_all add: line_step_fields)

lemma fold_author:
  "author (fold line_step ls v) = (if author v = [] then first_value ''Author:'' ls else author v)"
  by (induction ls arbitrary: v) (simp_all add: line_step_fields)

lemma fold_fullText:
  "fullText (fold line_step ls v) = fullText v @ concat (map (\<lambda>l. l @ ''\<newline>'') ls)"
  by (induction ls arbitrary: v) (simp_all add: line_step_fields)

lemma fold_synopsis:
  "synopsis (fold line_step ls v) =
     synopsis v @ concat (map (\<lambda>l. l @ ''\<newline>'') (take (5 - counter v) ls))"
proof (induction ls arbitrary: v)
  case Nil
  show ?case by simp
next
  case (Cons l ls)
  show ?case
  proof (cases "counter v < 5")
    case True
    then have "5 - counter v = Suc (5 - (counter v + 1))" by simp
    then show ?thesis by (simp add: Cons.IH line_step_fields True)
  next
    case False
    then show ?thesis by (simp add: Cons.IH line_step_fields)
  qed
qed

lemma finish_fields:
  "counter (finish_synopsis v) = counter v" "name (finish_synopsis v) = name v"
  "author (finish_synopsis v) = author v" "fullText (finish_synopsis v) = fullText v"
  by (simp_all add: finish_synopsis_def)

lemma parse_file_eq:
  "parse_file f =
     (if scan_failed f then Inl ScannerError
      else Inr (finish_synopsis (fold line_step (file_lines f) scan_init)))"
  by (simp add: parse_file_def scan_loop_fold)

lemma scan_init_fields:
  "counter scan_init = 0" "name scan_init = []" "author scan_init = []"
  "fullText scan_init = []" "synopsis scan_init = []"
  by (simp_all add: scan_init_def)

lemma parsed_name: "name (finish_synopsis (fold line_step ls scan_init)) = first_value ''Title:'' ls"
  by (simp add: finish_fields fold_name scan_init_fields)

lemma parsed_author:
  "author (finish_synopsis (fold line_step ls scan_init)) = first_value ''Author:'' ls"
  by (simp add: finish_fields fold_author scan_init_fields)

lemma parsed_fullText:
  "fullText (finish_synopsis (fold line_step ls scan_init)) = concat (map (\<lambda>l. l @ ''\<newline>'') ls)"
  by (simp add: finish_fields fold_fullText scan_init_fields)

lemma loop_synopsis:
  "synopsis (fold line_step ls scan_init) = concat (map (\<lambda>l. l @ ''\<newline>'') (take 5 ls))"
  unfolding fold_synopsis by (simp add: scan_init_fields)

lemma parsed_synopsis:
  "synopsis (finish_synopsis (fold line_step ls scan_init)) =
     (if ls = [] then [] else concat (map (\<lambda>l. l @ ''\<newline>'') (take 5 ls)) @ ''...'')"
proof (cases ls)
  case Nil
  then show ?thesis by (simp add: finish_synopsis_def scan_init_fields)
next
  case (Cons l ls')
  then have "synopsis (fold line_step ls scan_init) \<noteq> []"
    unfolding loop_synopsis by simp
  then have "synopsis (finish_synopsis (fold line_step ls scan_init)) =
      synopsis (fold line_step ls scan_init) @ ''...''"
    by (simp add: finish_synopsis_def)
  with Cons show ?thesis unfolding loop_synopsis by simp
qed

lemma first_value_find_value_of:
  "(case find (\<lambda>l. value_of l key \<noteq> []) ls of
      None \<Rightarrow> first_value key ls = []
    | Some l \<Rightarrow> value_of l key = first_value key ls)"
  by (induction ls) (auto split: option.splits)

lemma first_value_find:
  assumes "CHR '':'' \<in> set key"
  shows "(case find (\<lambda>l. ExtractValueFromLine l key \<noteq> Inr []) ls of
            None \<Rightarrow> first_value key ls = []
          | Some l \<Rightarrow> ExtractValueFromLine l key = Inr (first_value key ls))"
  using first_value_find_value_of [of key ls]
  by (simp add: ExtractValueFromLine_value_of [OF assms] split: option.splits)

lemma first_value_no_marker:
  "\<forall>l\<in>set ls. \<not> Contains l key \<Longrightarrow> first_value key ls = ''''"
  by (induction ls) (simp_all add: value_of_def ExtractValueFromLine_def)

lemma first_value_append:
  "\<forall>p\<in>set pre. value_of p key = '''' \<Longrightarrow> first_value key (pre @ ls) = first_value key ls"
  by (induction pre) simp_all

lemma value_of_no_marker: "\<not> Contains l key \<Longrightarrow> value_of l key = ''''"
  by (simp add: value_of_def ExtractValueFromLine_def)

lemma value_of_Title_Foo: "value_of ''Title: Foo'' ''Title:'' = ''Foo''"
  by code_simp

lemma value_of_Author_Bar: "value_of ''Author: Bar'' ''Author:'' = ''Bar''"
  by code_simp

lemma first_value_at:
  assumes "\<forall>p\<in>set pre. \<not> Contains p key" and "value_of l key \<noteq> ''''"
  shows "first_value key (pre @ l # post) = value_of l key"
proof -
  from assms(1) have "\<forall>p\<in>set pre. value_of p key = ''''"
    by (simp add: value_of_no_marker)
  then have "first_value key (pre @ l # post) = first_value key (l # post)"
    by (rule first_value_append)
  with assms(2) show ?thesis by simp
qed

text \<open>
  Claim C3, as amended. For a document that the scanner reads to its end without
  error the parse block returns, and the synopsis is the first five lines (all of
  them when there are fewer), each followed by a newline as the loop joins them,
  and then the literal \<open>...\<close>; for the document without lines it is the empty
  string, with no ellipsis. When the scanner stops with an error the parse block
  panics and there is no synopsis.
\<close>

theorem synopsis_first_five_lines:
  "(\<exists>v. parse_file (TextFile ls False) = Inr v \<and>
        synopsis v =
          (if ls = [] then ''''
           else concat (map (\<lambda>l. l @ ''\<newline>'') (take 5 ls)) @ ''...'')) \<and>
   parse_file (TextFile ls True) = Inl ScannerError"
  by (simp add: parse_file_eq parsed_synopsis)

text \<open>
  The amended claim C3 at a document of six lines, at the document without lines,
  and at a document on which the scanner fails after its first line.
\<close>

theorem synopsis_first_five_lines_witness:
  "map_sum id synopsis (parse_file (TextFile [''a'', ''b'', ''c'', ''d'', ''e'', ''f''] False))
     = Inr ''a\<newline>b\<newline>c\<newline>d\<newline>e\<newline>...'' \<and>
   map_sum id synopsis (parse_file (TextFile [] False)) = Inr '''' \<and>
   parse_file (TextFile [''a''] True) = Inl ScannerError"
proof -
  from synopsis_first_five_lines [of "[''a'', ''b'', ''c'', ''d'', ''e'', ''f'']"]
  have 1: "map_sum id synopsis (parse_file (TextFile [''a'', ''b'', ''c'', ''d'', ''e'', ''f''] False))
     = Inr ''a\<newline>b\<newline>c\<newline>d\<newline>e\<newline>...''"
    by auto
  from synopsis_first_five_lines [of "[]"]
  have 2: "map_sum id synopsis (parse_file (TextFile [] False)) = Inr ''''"
    by auto
  from synopsis_first_five_lines [of "[''a'']"]
  have 3: "parse_file (TextFile [''a''] True) = Inl ScannerError"
    by (rule conjunct2)
  from 1 2 3 show ?thesis by (intro conjI)
qed

text \<open>
  Claim C3 as stated fails for a document with a line beyond the scanner's token
  limit after its first line: the scanner delivers the first line and stops with
  an error, the parse block panics, and
  \<open>AddReportToDatabaseAndElasticSearch\<close> panics with it, leaving the world as it
  was. The document has a line, and no synopsis is produced.
\<close>

theorem synopsis_scanner_error_counterexample:
  "file_lines (TextFile [''Title: Delta''] True) = [''Title: Delta''] \<and>
   parse_file (TextFile [''Title: Delta''] True) = Inl ScannerError \<and>
   map_of (staticTextFiles example_world_long_line) ''d.txt''
     = Some (TextFile [''Title: Delta''] True) \<and>
   AddReportToDatabaseAndElasticSearch example_world_long_line ''d.txt''
     = Inl (ScannerError, example_world_long_line)"
  by code_simp

text \<open>
  Claim C4, as amended. For a document that the scanner reads to its end without
  error the parse block returns. The name is the value of the first line whose
  value for the marker \<open>Title:\<close> is not empty (the part after the line's first
  colon, trimmed), and the empty string when there is no such line; the author is
  obtained in the same way from the marker \<open>Author:\<close>, on its own. A field stays
  empty when no line contains its marker. With a line \<open>Title: Foo\<close>
  (\<open>Author: Bar\<close>) that no line containing the marker precedes, the name is
  \<open>Foo\<close> (the author is \<open>Bar\<close>), wherever the line stands. When the scanner
  stops with an error the parse block panics and there is neither name nor author.
\<close>

theorem title_author_first_nonempty:
  "(\<exists>v. parse_file (TextFile ls False) = Inr v \<and>
     (case find (\<lambda>l. ExtractValueFromLine l ''Title:'' \<noteq> Inr '''') ls of
        None \<Rightarrow> name v = ''''
      | Some l \<Rightarrow> ExtractValueFromLine l ''Title:'' = Inr (name v)) \<and>
     (case find (\<lambda>l. ExtractValueFromLine l ''Author:'' \<noteq> Inr '''') ls of
        None \<Rightarrow> author v = ''''
      | Some l \<Rightarrow> ExtractValueFromLine l ''Author:'' = Inr (author v)) \<and>
     ((\<forall>l\<in>set ls. \<not> Contains l ''Title:'') \<longrightarrow> name v = '''') \<and>
     ((\<forall>l\<in>set ls. \<not> Contains l ''Author:'') \<longrightarrow> author v = '''') \<and>
     (\<forall>pre post. ls = pre @ ''Title: Foo'' # post \<and> (\<forall>p\<in>set pre. \<not> Contains p ''Title:'')
        \<longrightarrow> name v = ''Foo'') \<and>
     (\<forall>pre post. ls = pre @ ''Author: Bar'' # post \<and> (\<forall>p\<in>set pre. \<not> Contains p ''Author:'')
        \<longrightarrow> author v = ''Bar'')) \<and>
   parse_file (TextFile ls True) = Inl ScannerError"
proof -
  let ?v = "finish_synopsis (fold line_step ls scan_init)"
  have 1: "parse_file (TextFile ls False) = Inr ?v" by (simp add: parse_file_eq)
  have 2: "case find (\<lambda>l. ExtractValueFromLine l ''Title:'' \<noteq> Inr '''') ls of
        None \<Rightarrow> name ?v = ''''
      | Some l \<Rightarrow> ExtractValueFromLine l ''Title:'' = Inr (name ?v)"
    unfolding parsed_name by (rule first_value_find) simp
  have 3: "case find (\<lambda>l. ExtractValueFromLine l ''Author:'' \<noteq> Inr '''') ls of
        None \<Rightarrow> author ?v = ''''
      | Some l \<Rightarrow> ExtractValueFromLine l ''Author:'' = Inr (author ?v)"
    unfolding parsed_author by (rule first_value_find) simp
  have 4: "(\<forall>l\<in>set ls. \<not> Contains l ''Title:'') \<longrightarrow> name ?v = ''''"
    by (simp add: parsed_name first_value_no_marker)
  have 5: "(\<forall>l\<in>set ls. \<not> Contains l ''Author:'') \<longrightarrow> author ?v = ''''"
    by (simp add: parsed_author first_value_no_marker)
  have 6: "\<forall>pre post. ls = pre @ ''Title: Foo'' # post \<and> (\<forall>p\<in>set pre. \<not> Contains p ''Title:'')
        \<longrightarrow> name ?v = ''Foo''"
    unfolding parsed_name using first_value_at [of _ "''Title:''" "''Title: Foo''"]
    by (auto simp: value_of_Title_Foo)
  have 7: "\<forall>pre post. ls = pre @ ''Author: Bar'' # post \<and> (\<forall>p\<in>set pre. \<not> Contains p ''Author:'')
        \<longrightarrow> author ?v = ''Bar''"
    unfolding parsed_author using first_value_at [of _ "''Author:''" "''Author: Bar''"]
    by (auto simp: value_of_Author_Bar)
  have 8: "parse_file (TextFile ls True) = Inl ScannerError" by (simp add: parse_file_eq)
  from 1 2 3 4 5 6 7 have "\<exists>v. parse_file (TextFile ls False) = Inr v \<and>
     (case find (\<lambda>l. ExtractValueFromLine l ''Title:'' \<noteq> Inr '''') ls of
        None \<Rightarrow> name v = ''''
      | Some l \<Rightarrow> ExtractValueFromLine l ''Title:'' = Inr (name v)) \<and>
     (case find (\<lambda>l. ExtractValueFromLine l ''Author:'' \<noteq> Inr '''') ls of
        None \<Rightarrow> author v = ''''
      | Some l \<Rightarrow> ExtractValueFromLine l ''Author:'' = Inr (author v)) \<and>
     ((\<forall>l\<in>set ls. \<not> Contains l ''Title:'') \<longrightarrow> name v = '''') \<and>
     ((\<forall>l\<in>set ls. \<not> Contains l ''Author:'') \<longrightarrow> author v = '''') \<and>
     (\<forall>pre post. ls = pre @ ''Title: Foo'' # post \<and> (\<forall>p\<in>set pre. \<not> Contains p ''Title:'')
        \<longrightarrow> name v = ''Foo'') \<and>
     (\<forall>pre post. ls = pre @ ''Author: Bar'' # post \<and> (\<forall>p\<in>set pre. \<not> Contains p ''Author:'')
        \<longrightarrow> author v = ''Bar'')"
    by (intro exI [of _ ?v] conjI)
  from this 8 show ?thesis by (rule conjI)
qed

text \<open>
  Claim C10. For a key that contains a colon: when the line contains the key,
  splitting the line at its first colon gives exactly two pieces and the result is
  the trimmed second piece; when it does not, the result is the empty string. In
  no case does the index expression panic.
\<close>

theorem ExtractValueFromLine_in_bounds:
  assumes "CHR '':'' \<in> set key"
  shows "(Contains line key \<longrightarrow>
            length (SplitN line '':'' 2) = 2 \<and>
            ExtractValueFromLine line key = Inr (TrimSpace (SplitN line '':'' 2 ! 1))) \<and>
         (\<not> Contains line key \<longrightarrow> ExtractValueFromLine line key = Inr '''') \<and>
         ExtractValueFromLine line key \<noteq> Inl IndexOutOfRange"
proof (cases "Contains line key")
  case True
  from SplitN_colon [OF True assms] obtain m where
    "SplitN line '':'' 2 = [take m line, drop (m + 1) line]" by blast
  with True show ?thesis by (simp add: ExtractValueFromLine_def)
next
  case False
  then show ?thesis by (simp add: ExtractValueFromLine_def)
qed

text \<open>Claim C10 at the key \<open>Title:\<close>, on a line with the key and on one without.\<close>

theorem ExtractValueFromLine_in_bounds_witness:
  "CHR '':'' \<in> set ''Title:'' \<and> Contains ''Title: Foo'' ''Title:'' \<and>
   \<not> Contains ''Foo'' ''Title:'' \<and>
   length (SplitN ''Title: Foo'' '':'' 2) = 2 \<and>
   ExtractValueFromLine ''Title: Foo'' ''Title:'' = Inr ''Foo'' \<and>
   ExtractValueFromLine ''Foo'' ''Title:'' = Inr ''''"
proof -
  have k: "CHR '':'' \<in> set ''Title:''" by simp
  have c1: "Contains ''Title: Foo'' ''Title:''" by code_simp
  have c2: "\<not> Contains ''Foo'' ''Title:''" by code_simp
  have t: "TrimSpace (SplitN ''Title: Foo'' '':'' 2 ! 1) = ''Foo''" by code_simp
  from ExtractValueFromLine_in_bounds [OF k, of "''Title: Foo''"]
       ExtractValueFromLine_in_bounds [OF k, of "''Foo''"] k c1 c2 t
  show ?thesis by simp
qed

text \<open>
  The amended claim C4 at two documents: one without any marker, and one where
  the author line precedes the title line and a second title line follows.
\<close>

theorem title_author_first_nonempty_witness:
  "\<not> Contains ''Intro'' ''Title:'' \<and> \<not> Contains ''Intro'' ''Author:'' \<and>
   \<not> Contains ''Author: Bar'' ''Title:'' \<and>
   map_sum id name (parse_file (TextFile [''Intro''] False)) = Inr [] \<and>
   map_sum id author (parse_file (TextFile [''Intro''] False)) = Inr [] \<and>
   map_sum id name
     (parse_file (TextFile [''Intro'', ''Author: Bar'', ''Title: Foo'', ''Title: Baz''] False))
     = Inr ''Foo'' \<and>
   map_sum id author
     (parse_file (TextFile [''Intro'', ''Author: Bar'', ''Title: Foo'', ''Title: Baz''] False))
     = Inr ''Bar'' \<and>
   parse_file (TextFile [''Intro''] True) = Inl ScannerError"
proof -
  let ?doc = "[''Intro'', ''Author: Bar'', ''Title: Foo'', ''Title: Baz'']"
  have a: "\<forall>l\<in>set [''Intro''] . \<not> Contains l ''Title:''" by code_simp
  have b: "\<forall>l\<in>set [''Intro'']. \<not> Contains l ''Author:''" by code_simp
  have c: "\<forall>p\<in>set [''Intro'', ''Author: Bar'']. \<not> Contains p ''Title:''" by code_simp
  have d: "?doc = [''Intro'', ''Author: Bar''] @ ''Title: Foo'' # [''Title: Baz'']" by simp
  have e: "?doc = [''Intro''] @ ''Author: Bar'' # [''Title: Foo'', ''Title: Baz'']" by simp
  note t1 = title_author_first_nonempty [of "[''Intro'']"]
  from t1 [THEN conjunct1] a b
  have 1: "map_sum id name (parse_file (TextFile [''Intro''] False)) = Inr '''' \<and>
           map_sum id author (parse_file (TextFile [''Intro''] False)) = Inr ''''"
    by auto
  from t1 have 3: "parse_file (TextFile [''Intro''] True) = Inl ScannerError"
    by (rule conjunct2)
  from title_author_first_nonempty [of ?doc, THEN conjunct1]
  obtain v where v: "parse_file (TextFile ?doc False) = Inr v"
    and f: "\<forall>pre post. ?doc = pre @ ''Title: Foo'' # post \<and>
              (\<forall>p\<in>set pre. \<not> Contains p ''Title:'') \<longrightarrow> name v = ''Foo''"
    and g: "\<forall>pre post. ?doc = pre @ ''Author: Bar'' # post \<and>
              (\<forall>p\<in>set pre. \<not> Contains p ''Author:'') \<longrightarrow> author v = ''Bar''"
    by (elim exE conjE)
  from f d c have "name v = ''Foo''" by blast
  moreover from g e b have "author v = ''Bar''" by blast
  ultimately have 2: "map_sum id name (parse_file (TextFile ?doc False)) = Inr ''Foo'' \<and>
                      map_sum id author (parse_file (TextFile ?doc False)) = Inr ''Bar''"
    by (simp add: v)
  from a b c 1 2 3 show ?thesis by simp
qed

text \<open>
  Claim C4 as stated fails. The document of the lines \<open>Title:\<close>, \<open>Title: Baz\<close>,
  \<open>Title: Foo\<close> and \<open>Author: Bar\<close> contains a line \<open>Title: Foo\<close> and a line
  \<open>Author: Bar\<close>. Its first line that contains the marker \<open>Title:\<close> is the first
  one, whose value is empty; the parser skips it and takes the name \<open>Baz\<close> from
  the second line, so the name is neither \<open>Foo\<close> nor the value of the first
  matching line. And when the scanner stops with an error on a document of the two
  lines \<open>Title: Foo\<close> and \<open>Author: Bar\<close>, the parse block panics.
\<close>

theorem title_first_match_counterexample:
  "''Title: Foo'' \<in> set [''Title:'', ''Title: Baz'', ''Title: Foo'', ''Author: Bar''] \<and>
   ''Author: Bar'' \<in> set [''Title:'', ''Title: Baz'', ''Title: Foo'', ''Author: Bar''] \<and>
   Contains ''Title:'' ''Title:'' \<and>
   ExtractValueFromLine ''Title:'' ''Title:'' = Inr '''' \<and>
   map_sum id name
     (parse_file (TextFile [''Title:'', ''Title: Baz'', ''Title: Foo'', ''Author: Bar''] False))
     = Inr ''Baz'' \<and>
   map_sum id author
     (parse_file (TextFile [''Title:'', ''Title: Baz'', ''Title: Foo'', ''Author: Bar''] False))
     = Inr ''Bar'' \<and>
   parse_file (TextFile [''Title: Foo'', ''Author: Bar''] True) = Inl ScannerError"
  by code_simp

section \<open>Properties of the report store and the handlers\<close>

lemma find_unique_key:
  "distinct (map f xs) \<Longrightarrow> x \<in> set xs \<Longrightarrow> find (\<lambda>y. f y = f x) xs = Some x"
  by (induction xs) (auto simp: image_iff)

lemma find_no_key: "k \<notin> f ` set xs \<Longrightarrow> find (\<lambda>y. f y = k) xs = None"
  by (induction xs) auto

lemma GetAllReportList_reachable:
  "dbReachable w \<Longrightarrow> GetAllReportList w =
     Inr (map (\<lambda>r. r\<lparr>Report_Text := ''''\<rparr>) (sort_key Report_Name (report w)))"
  by (simp add: GetAllReportList_def)

text \<open>
  Claim C9. With the store reachable and the ids of table \<open>report\<close> unique (its
  primary key), \<open>GetAllReportList\<close> returns one report per row, each with an empty
  text field, and \<open>GetReportById\<close> returns, for the id of every stored row, that
  row with its full text.
\<close>

theorem list_omits_text_get_returns_text:
  assumes "dbReachable w" and "distinct (map Report_Id (report w))"
  shows "(\<exists>l. GetAllReportList w = Inr l \<and> length l = length (report w) \<and>
              (\<forall>r\<in>set l. Report_Text r = '''')) \<and>
         (\<forall>row\<in>set (report w). GetReportById w (Report_Id row) = Inr row)"
proof -
  have "\<forall>row\<in>set (report w). GetReportById w (Report_Id row) = Inr row"
    using assms by (simp add: GetReportById_def find_unique_key)
  moreover have "\<exists>l. GetAllReportList w = Inr l \<and> length l = length (report w) \<and>
              (\<forall>r\<in>set l. Report_Text r = '''')"
    using assms(1) by (simp add: GetAllReportList_reachable)
  ultimately show ?thesis by blast
qed

lemma set_report_tag_join:
  "set (report_tag_join w reportId) =
     {(t, rt_active rt) | t rt. reportId \<in> Report_Id ` set (report w) \<and>
        rt \<in> set (report_tag w) \<and> rt_report_id rt = reportId \<and>
        t \<in> set (tag w) \<and> tag_id t = rt_tag_id rt}"
  unfolding report_tag_join_def by (simp only: set_sort) force

lemma join_missing_report:
  assumes "reportId \<notin> Report_Id ` set (report w)"
  shows "report_tag_join w reportId = []"
proof -
  have "set (report_tag_join w reportId) = {}"
    unfolding set_report_tag_join using assms by simp
  then show ?thesis by simp
qed

lemma update_no_match:
  assumes "dbReachable w"
    and "\<forall>row\<in>set (report_tag w). \<not> (rt_report_id row = r \<and> rt_tag_id row = Tag_Id t)"
  shows "updateReportTag r w t = Inr w"
proof -
  from assms(2) have "map (\<lambda>row. if rt_report_id row = r \<and> rt_tag_id row = Tag_Id t
                        then row\<lparr>rt_active := Active t\<rparr> else row) (report_tag w) = report_tag w"
    by (intro map_idI) auto
  with assms(1) show ?thesis by (simp add: updateReportTag_def)
qed

lemma delete_no_match:
  assumes "dbReachable w"
    and "\<forall>row\<in>set (report_tag w). \<not> (rt_report_id row = r \<and> rt_tag_id row = Tag_Id t)"
  shows "deleteReportTag r w t = Inr w"
proof -
  from assms(2) have "filter (\<lambda>row. \<not> (rt_report_id row = r \<and> rt_tag_id row = Tag_Id t))
      (report_tag w) = report_tag w"
    by (simp add: filter_id_conv)
  with assms(1) show ?thesis by (simp add: deleteReportTag_def)
qed

text \<open>
  Claim C5, as amended. With the store reachable and no report of the given id:
  \<open>GetReportById\<close> panics with \<open>ErrNoRows\<close> (it returns no empty report), and
  \<open>HandleGetReport\<close> recovers the panic into status 500;
  \<open>GetReportTagListByReportId\<close> returns the empty list and
  \<open>DoesReportWithIdExist\<close> returns false, on which \<open>HandleUpdateReportTags\<close>
  answers 400. \<open>updateReportTag\<close> and \<open>deleteReportTag\<close> leave the world as it
  is when no association row matches.
\<close>

theorem missing_report_id:
  assumes "dbReachable w" and "reportId \<notin> Report_Id ` set (report w)"
  shows "GetReportById w reportId = Inl ErrNoRows \<and>
         HandleGetReport w (Some reportId) = ((500, Message ''Error in getting report.''), w) \<and>
         GetReportTagListByReportId w reportId = Inr [] \<and>
         DoesReportWithIdExist w reportId = Inr False \<and>
         HandleUpdateReportTags rangeOrder w (Some reportId) jsonBody =
           ((400, NoReportFoundWithId reportId), w) \<and>
         ((\<forall>row\<in>set (report_tag w). \<not> (rt_report_id row = r \<and> rt_tag_id row = Tag_Id t)) \<longrightarrow>
            updateReportTag r w t = Inr w \<and> deleteReportTag r w t = Inr w)"
proof -
  have g: "GetReportById w reportId = Inl ErrNoRows"
    using assms by (simp add: GetReportById_def find_no_key)
  have h: "HandleGetReport w (Some reportId) = ((500, Message ''Error in getting report.''), w)"
    by (simp add: HandleGetReport_def g)
  have l: "GetReportTagListByReportId w reportId = Inr []"
    using assms by (simp add: GetReportTagListByReportId_def join_missing_report)
  have "filter (\<lambda>r. Report_Id r = reportId) (report w) = []"
    using assms(2) by (auto simp: filter_empty_conv)
  then have d: "DoesReportWithIdExist w reportId = Inr False"
    using assms(1) by (simp add: DoesReportWithIdExist_def)
  have u: "HandleUpdateReportTags rangeOrder w (Some reportId) jsonBody =
           ((400, NoReportFoundWithId reportId), w)"
    by (simp add: HandleUpdateReportTags_def d)
  from g h l d u update_no_match [OF assms(1)] delete_no_match [OF assms(1)]
  show ?thesis by blast
qed

text \<open>
  Claim C8. With an empty search term \<open>HandleGetReportList\<close> answers exactly as
  \<open>HandleGetAllReportList\<close> does and leaves the world unchanged, so no request
  reaches the search index. With the store reachable the answer is status 200 with
  the result of \<open>GetAllReportList\<close>: plain reports without a score, sorted by
  name, one for each row of the table (with the text blanked).
\<close>

theorem empty_search_term_lists_all:
  "HandleGetReportList esAnswer w '''' = HandleGetAllReportList w \<and>
   snd (HandleGetReportList esAnswer w '''') = w \<and>
   (dbReachable w \<longrightarrow>
      (\<exists>l. fst (HandleGetReportList esAnswer w '''') = (200, ReportListJson l) \<and>
           GetAllReportList w = Inr l \<and>
           sorted (map Report_Name l) \<and>
           mset (map (\<lambda>r. r\<lparr>Report_Text := ''''\<rparr>) (report w)) = mset l))"
proof -
  have 1: "HandleGetReportList esAnswer w '''' = HandleGetAllReportList w"
    by (simp add: HandleGetReportList_def)
  have 2: "snd (HandleGetAllReportList w) = w"
    by (simp add: HandleGetAllReportList_def split: sum.splits)
  have 3: "dbReachable w \<longrightarrow>
      (\<exists>l. fst (HandleGetAllReportList w) = (200, ReportListJson l) \<and>
           GetAllReportList w = Inr l \<and>
           sorted (map Report_Name l) \<and>
           mset (map (\<lambda>r. r\<lparr>Report_Text := ''''\<rparr>) (report w)) = mset l)"
  proof
    assume r: "dbReachable w"
    let ?l = "map (\<lambda>r. r\<lparr>Report_Text := ''''\<rparr>) (sort_key Report_Name (report w))"
    have a: "GetAllReportList w = Inr ?l" using r by (rule GetAllReportList_reachable)
    have b: "fst (HandleGetAllReportList w) = (200, ReportListJson ?l)"
      by (simp add: HandleGetAllReportList_def a)
    have "map Report_Name ?l = map Report_Name (sort_key Report_Name (report w))"
      by (simp add: comp_def)
    then have c: "sorted (map Report_Name ?l)" by (simp only: sorted_sort_key)
    have d: "mset (map (\<lambda>r. r\<lparr>Report_Text := ''''\<rparr>) (report w)) = mset ?l"
      by simp
    from a b c d show "\<exists>l. fst (HandleGetAllReportList w) = (200, ReportListJson l) \<and>
           GetAllReportList w = Inr l \<and>
           sorted (map Report_Name l) \<and>
           mset (map (\<lambda>r. r\<lparr>Report_Text := ''''\<rparr>) (report w)) = mset l"
      by blast
  qed
  from 1 2 3 show ?thesis by simp
qed

lemma find_snoc:
  "find P (xs @ [x]) = (case find P xs of None \<Rightarrow> if P x then Some x else None | Some y \<Rightarrow> Some y)"
  by (induction xs) auto

lemma insert_report_effect:
  "dbReachable (state_of (insert_report w nm au f syn txt)) = dbReachable w \<and>
   (case insert_report w nm au f syn txt of
      Inl (e, w1) \<Rightarrow> report w1 = report w
    | Inr w1 \<Rightarrow> \<exists>row. report w1 = report w @ [row] \<and> Report_FileName row = f)"
  by (simp add: insert_report_def Let_def)

lemma put_effect:
  "dbReachable (state_of (DoHttpPutRequest w i d)) = dbReachable w \<and>
   report (state_of (DoHttpPutRequest w i d)) = report w"
  by (simp add: DoHttpPutRequest_def)

lemma add_existing:
  assumes "dbReachable w" and "\<exists>r\<in>set (report w). Report_FileName r = f"
  shows "AddReportToDatabaseAndElasticSearch w f = Inr w"
proof -
  from assms(2) have "filter (\<lambda>r. Report_FileName r = f) (report w) \<noteq> []"
    by (simp add: filter_empty_conv)
  with assms(1) show ?thesis by (simp add: AddReportToDatabaseAndElasticSearch_def)
qed

text \<open>What a successful call stores is what the parser returned for the file.\<close>

lemma insert_report_row:
  assumes "insert_report w nm au f syn txt = Inr w1"
  shows "report w1 = report w @
           [\<lparr>Report_Id = report_id_seq w + 1, Report_FileName = f, Report_Name = nm,
             Report_Author = au, Report_Synopsis = syn, Report_Text = txt\<rparr>]"
  using assms by (auto simp: insert_report_def Let_def split: if_splits)

lemma add_stores_parsed:
  assumes "map_of (staticTextFiles w) fileName = Some fl"
    and "\<forall>r\<in>set (report w). Report_FileName r \<noteq> fileName"
    and "AddReportToDatabaseAndElasticSearch w fileName = Inr w'"
  shows "\<exists>v. parse_file fl = Inr v \<and>
           report w' = report w @
             [\<lparr>Report_Id = report_id_seq w + 1, Report_FileName = fileName,
               Report_Name = name v, Report_Author = author v,
               Report_Synopsis = synopsis v, Report_Text = fullText v\<rparr>]"
proof -
  from assms(2) have e: "filter (\<lambda>r. Report_FileName r = fileName) (report w) = []"
    by (simp add: filter_empty_conv)
  from assms(3) have r: "dbReachable w"
    by (auto simp: AddReportToDatabaseAndElasticSearch_def split: if_splits)
  from assms r e obtain v where v: "parse_file fl = Inr v"
    by (cases "parse_file fl") (auto simp: AddReportToDatabaseAndElasticSearch_def)
  from assms r e v obtain w1 where
    w1: "insert_report w (name v) (author v) fileName (synopsis v) (fullText v) = Inr w1"
    by (cases "insert_report w (name v) (author v) fileName (synopsis v) (fullText v)")
       (auto simp: AddReportToDatabaseAndElasticSearch_def)
  note row = insert_report_row [OF w1]
  from assms(2) have "find (\<lambda>r. Report_FileName r = fileName) (report w) = None"
    by (simp add: find_None_iff)
  then have fnd: "find (\<lambda>r. Report_FileName r = fileName) (report w1) =
      Some \<lparr>Report_Id = report_id_seq w + 1, Report_FileName = fileName,
               Report_Name = name v, Report_Author = author v,
               Report_Synopsis = synopsis v, Report_Text = fullText v\<rparr>"
    unfolding row by (simp add: find_snoc)
  let ?doc = "\<lparr>Report_Id = report_id_seq w + 1, Report_FileName = fileName,
                Report_Name = name v, Report_Author = author v,
                Report_Synopsis = synopsis v, Report_Text = fullText v\<rparr>"
  have "AddReportToDatabaseAndElasticSearch w fileName =
          DoHttpPutRequest w1 (report_id_seq w + 1) ?doc"
    using assms(1) r e v w1 fnd by (simp add: AddReportToDatabaseAndElasticSearch_def)
  with assms(3) have "state_of (DoHttpPutRequest w1 (report_id_seq w + 1) ?doc) = w'" by simp
  with put_effect [of w1 "report_id_seq w + 1" ?doc] have "report w' = report w1" by simp
  with row v show ?thesis by simp
qed

lemma add_effect:
  "dbReachable (state_of (AddReportToDatabaseAndElasticSearch w f)) = dbReachable w \<and>
   (report (state_of (AddReportToDatabaseAndElasticSearch w f)) = report w \<or>
    (\<forall>r\<in>set (report w). Report_FileName r \<noteq> f) \<and>
    (\<exists>row. report (state_of (AddReportToDatabaseAndElasticSearch w f)) = report w @ [row] \<and>
           Report_FileName row = f))"
proof (cases "dbReachable w \<and> (\<forall>r\<in>set (report w). Report_FileName r \<noteq> f)")
  case False
  then have "state_of (AddReportToDatabaseAndElasticSearch w f) = w"
    by (auto simp: AddReportToDatabaseAndElasticSearch_def filter_empty_conv)
  then show ?thesis by simp
next
  case True
  then have r: "dbReachable w" and n: "\<forall>r\<in>set (report w). Report_FileName r \<noteq> f" by auto
  from n have e: "filter (\<lambda>r. Report_FileName r = f) (report w) = []"
    by (simp add: filter_empty_conv)
  show ?thesis
  proof (cases "map_of (staticTextFiles w) f")
    case None
    then show ?thesis using r e by (simp add: AddReportToDatabaseAndElasticSearch_def)
  next
    case (Some fl)
    let ?v = "finish_synopsis (fold line_step (file_lines fl) scan_init)"
    show ?thesis
    proof (cases "scan_failed fl")
      case True
      then show ?thesis
        using r e Some by (simp add: AddReportToDatabaseAndElasticSearch_def parse_file_eq)
    next
      case False
      let ?ins = "insert_report w (name ?v) (author ?v) f (synopsis ?v) (fullText ?v)"
      show ?thesis
      proof (cases ?ins)
        case (Inl p)
        obtain e1 w1 where p: "p = (e1, w1)" by (cases p)
        from insert_report_effect [of w "name ?v" "author ?v" f "synopsis ?v" "fullText ?v"] Inl p
        have "dbReachable w1 = dbReachable w" "report w1 = report w" by simp_all
        moreover have "AddReportToDatabaseAndElasticSearch w f = Inl (e1, w1)"
          using r e Some False Inl p
          by (simp add: AddReportToDatabaseAndElasticSearch_def parse_file_eq Let_def)
        ultimately show ?thesis by simp
      next
        case (Inr w1)
        from insert_report_effect [of w "name ?v" "author ?v" f "synopsis ?v" "fullText ?v"] Inr
        obtain row where w1: "dbReachable w1 = dbReachable w" "report w1 = report w @ [row]"
          "Report_FileName row = f" by auto
        from n have "find (\<lambda>r. Report_FileName r = f) (report w) = None"
          by (simp add: find_None_iff)
        then have fnd: "find (\<lambda>r. Report_FileName r = f) (report w1) = Some row"
          using w1 by (simp add: find_snoc)
        have "AddReportToDatabaseAndElasticSearch w f =
            DoHttpPutRequest w1 (Report_Id row)
              \<lparr>Report_Id = Report_Id row, Report_FileName = f,
                Report_Name = name ?v, Report_Author = author ?v,
                Report_Synopsis = synopsis ?v, Report_Text = fullText ?v\<rparr>"
          using r e Some False Inr fnd
          by (simp add: AddReportToDatabaseAndElasticSearch_def parse_file_eq Let_def)
        with put_effect w1 n show ?thesis by auto
      qed
    qed
  qed
qed

text \<open>
  Claim C2. When the store is reachable and a report of the file name exists, the
  function returns at once with the world unchanged: no row is inserted, no
  request reaches the search index, and the text files play no part. A run that
  returned normally is followed by a run that changes nothing. Whatever the
  outcomes of two runs in a row (a panic leaves its partial writes), the table
  then holds at most one row of the file name if it held at most one before.
\<close>

theorem reconcile_at_most_once:
  "(dbReachable w \<and> (\<exists>r\<in>set (report w). Report_FileName r = fileName) \<longrightarrow>
      AddReportToDatabaseAndElasticSearch w fileName = Inr w) \<and>
   (AddReportToDatabaseAndElasticSearch w fileName = Inr w1 \<longrightarrow>
      AddReportToDatabaseAndElasticSearch w1 fileName = Inr w1) \<and>
   length (filter (\<lambda>r. Report_FileName r = fileName)
     (report (state_of (AddReportToDatabaseAndElasticSearch
        (state_of (AddReportToDatabaseAndElasticSearch w fileName)) fileName))))
     \<le> max 1 (length (filter (\<lambda>r. Report_FileName r = fileName) (report w)))"
proof -
  let ?add = "\<lambda>w. AddReportToDatabaseAndElasticSearch w fileName"
  let ?rows = "\<lambda>w. filter (\<lambda>r. Report_FileName r = fileName) (report w)"
  have 1: "dbReachable w \<and> (\<exists>r\<in>set (report w). Report_FileName r = fileName) \<longrightarrow> ?add w = Inr w"
    using add_existing by blast
  have 2: "?add w = Inr w1 \<longrightarrow> ?add w1 = Inr w1"
  proof
    assume a: "?add w = Inr w1"
    then have r: "dbReachable w"
      by (auto simp: AddReportToDatabaseAndElasticSearch_def split: if_splits)
    show "?add w1 = Inr w1"
    proof (cases "\<exists>r\<in>set (report w). Report_FileName r = fileName")
      case True
      with r a add_existing [of w fileName] show ?thesis by simp
    next
      case False
      then have e: "?rows w = []" by (simp add: filter_empty_conv)
      from add_effect [of w fileName] a have r1: "dbReachable w1 = dbReachable w"
        and c: "report w1 = report w \<or> (\<exists>row. report w1 = report w @ [row] \<and> Report_FileName row = fileName)"
        by auto
      have "report w1 \<noteq> report w"
      proof
        assume same: "report w1 = report w"
        show False
        proof (cases "map_of (staticTextFiles w) fileName")
          case None
          with a r e show False by (simp add: AddReportToDatabaseAndElasticSearch_def)
        next
          case (Some fl)
          let ?v = "finish_synopsis (fold line_step (file_lines fl) scan_init)"
          from a r e Some have nf: "\<not> scan_failed fl"
            by (auto simp: AddReportToDatabaseAndElasticSearch_def parse_file_eq split: if_splits)
          show False
          proof (cases "insert_report w (name ?v) (author ?v) fileName (synopsis ?v) (fullText ?v)")
            case (Inl p)
            with a r e Some nf show False
              by (simp add: AddReportToDatabaseAndElasticSearch_def parse_file_eq Let_def)
          next
            case (Inr w2)
            from insert_report_effect [of w "name ?v" "author ?v" fileName "synopsis ?v" "fullText ?v"] Inr
            obtain row where w2: "report w2 = report w @ [row]" "Report_FileName row = fileName"
              by auto
            from False have "find (\<lambda>r. Report_FileName r = fileName) (report w) = None"
              by (simp add: find_None_iff)
            then have fnd: "find (\<lambda>r. Report_FileName r = fileName) (report w2) = Some row"
              using w2 by (simp add: find_snoc)
            let ?doc = "\<lparr>Report_Id = Report_Id row, Report_FileName = fileName,
                Report_Name = name ?v, Report_Author = author ?v,
                Report_Synopsis = synopsis ?v, Report_Text = fullText ?v\<rparr>"
            have "?add w = DoHttpPutRequest w2 (Report_Id row) ?doc"
              using r e Some nf Inr fnd
              by (simp add: AddReportToDatabaseAndElasticSearch_def parse_file_eq Let_def)
            with a have "state_of (DoHttpPutRequest w2 (Report_Id row) ?doc) = w1" by simp
            with put_effect [of w2 "Report_Id row" ?doc] have "report w1 = report w2" by simp
            with same w2 show False by simp
          qed
        qed
      qed
      with c obtain row where "report w1 = report w @ [row]" "Report_FileName row = fileName"
        by blast
      then have "\<exists>r\<in>set (report w1). Report_FileName r = fileName" by auto
      with r r1 add_existing [of w1 fileName] show ?thesis by simp
    qed
  qed
  have 3: "length (?rows (state_of (?add (state_of (?add w))))) \<le> max 1 (length (?rows w))"
  proof -
    let ?w1 = "state_of (?add w)"
    let ?w2 = "state_of (?add ?w1)"
    have s1: "report ?w1 = report w \<or>
        (\<forall>r\<in>set (report w). Report_FileName r \<noteq> fileName) \<and>
        (\<exists>row. report ?w1 = report w @ [row] \<and> Report_FileName row = fileName)"
      using add_effect [of w fileName] by blast
    have s2: "report ?w2 = report ?w1 \<or>
        (\<forall>r\<in>set (report ?w1). Report_FileName r \<noteq> fileName) \<and>
        (\<exists>row. report ?w2 = report ?w1 @ [row] \<and> Report_FileName row = fileName)"
      using add_effect [of ?w1 fileName] by blast
    from s1 s2 show ?thesis
      by (auto simp: filter_empty_conv max_def)
  qed
  from 1 2 3 show ?thesis by blast
qed

text \<open>
  Claim C2 in the example world: \<open>a.txt\<close> is known and skipped; \<open>c.txt\<close> is new,
  is added once, and the second run returns the same world.
\<close>

theorem reconcile_at_most_once_witness:
  "dbReachable example_world \<and>
   AddReportToDatabaseAndElasticSearch example_world ''a.txt'' = Inr example_world \<and>
   \<not> isl (AddReportToDatabaseAndElasticSearch example_world ''c.txt'') \<and>
   AddReportToDatabaseAndElasticSearch
      (projr (AddReportToDatabaseAndElasticSearch example_world ''c.txt'')) ''c.txt'' =
     AddReportToDatabaseAndElasticSearch example_world ''c.txt'' \<and>
   map Report_FileName (report (projr (AddReportToDatabaseAndElasticSearch example_world ''c.txt'')))
     = [''b.txt'', ''a.txt'', ''c.txt'']"
proof -
  have r: "dbReachable example_world" by (simp add: example_world_def)
  have x: "\<exists>r\<in>set (report example_world). Report_FileName r = ''a.txt''" by (simp add: example_world_def)
  from reconcile_at_most_once [of example_world "''a.txt''"] r x
  have a: "AddReportToDatabaseAndElasticSearch example_world ''a.txt'' = Inr example_world" by blast
  have e2: "\<not> isl (AddReportToDatabaseAndElasticSearch example_world ''c.txt'')" by code_simp
  then obtain w1 where w1: "AddReportToDatabaseAndElasticSearch example_world ''c.txt'' = Inr w1"
    by (cases "AddReportToDatabaseAndElasticSearch example_world ''c.txt''") auto
  from reconcile_at_most_once [of example_world "''c.txt''" w1] w1
  have b: "AddReportToDatabaseAndElasticSearch w1 ''c.txt'' = Inr w1" by blast
  have e3: "map Report_FileName (report (projr (AddReportToDatabaseAndElasticSearch example_world ''c.txt'')))
   = [''b.txt'', ''a.txt'', ''c.txt'']" by code_simp
  from r a e2 b e3 w1 show ?thesis by simp
qed

text \<open>Claim C9 in the example world: two listed reports without text, one fetched with it.\<close>

theorem list_omits_text_get_returns_text_witness:
  "dbReachable example_world \<and> distinct (map Report_Id (report example_world)) \<and>
   map Report_Text (projr (GetAllReportList example_world)) = ['''', ''''] \<and>
   map_sum id Report_Text (GetReportById example_world 2) = Inr ''full text a''"
proof -
  have r: "dbReachable example_world" by (simp add: example_world_def)
  have d: "distinct (map Report_Id (report example_world))" by (simp add: example_world_def)
  have m: "\<lparr>Report_Id = 2, Report_FileName = ''a.txt'', Report_Name = ''Alpha'',
      Report_Author = ''Bob'', Report_Synopsis = ''t...'', Report_Text = ''full text a''\<rparr>
      \<in> set (report example_world)" by (simp add: example_world_def)
  from list_omits_text_get_returns_text [OF r d] obtain l where
    l: "GetAllReportList example_world = Inr l" "length l = length (report example_world)"
       "\<forall>r\<in>set l. Report_Text r = ''''"
    and g: "\<forall>row\<in>set (report example_world). GetReportById example_world (Report_Id row) = Inr row"
    by blast
  from l(2) have "length l = 2" by (simp add: example_world_def)
  then obtain a b where "l = [a, b]"
    by (cases l; cases "tl l") auto
  with l have 1: "map Report_Text (projr (GetAllReportList example_world)) = ['''', '''']" by simp
  from g m have 2: "map_sum id Report_Text (GetReportById example_world 2) = Inr ''full text a''"
    by fastforce
  from r d 1 2 show ?thesis by simp
qed

text \<open>The amended claim C5 in the example world, at the unknown report id 9.\<close>

theorem missing_report_id_witness:
  "dbReachable example_world \<and> 9 \<notin> Report_Id ` set (report example_world) \<and>
   GetReportById example_world 9 = Inl ErrNoRows \<and>
   HandleGetReport example_world (Some 9) = ((500, Message ''Error in getting report.''), example_world) \<and>
   GetReportTagListByReportId example_world 9 = Inr [] \<and>
   DoesReportWithIdExist example_world 9 = Inr False \<and>
   HandleUpdateReportTags rev example_world (Some 9) (Some []) = ((400, NoReportFoundWithId 9), example_world) \<and>
   updateReportTag 1 example_world \<lparr>Tag_Id = 3, Tag_Name = ''Adventure'', Tag_Color = ''#00FF00'', Active = True\<rparr>
     = Inr example_world \<and>
   deleteReportTag 1 example_world \<lparr>Tag_Id = 3, Tag_Name = ''Adventure'', Tag_Color = ''#00FF00'', Active = True\<rparr>
     = Inr example_world"
proof -
  have r: "dbReachable example_world" by (simp add: example_world_def)
  have n: "9 \<notin> Report_Id ` set (report example_world)" by (simp add: example_world_def)
  have m: "\<forall>row\<in>set (report_tag example_world). \<not> (rt_report_id row = 1 \<and> rt_tag_id row =
      Tag_Id \<lparr>Tag_Id = 3, Tag_Name = ''Adventure'', Tag_Color = ''#00FF00'', Active = True\<rparr>)"
    by (simp add: example_world_def)
  from missing_report_id [OF r n, of rev "Some []" 1
      "\<lparr>Tag_Id = 3, Tag_Name = ''Adventure'', Tag_Color = ''#00FF00'', Active = True\<rparr>"] r n m
  show ?thesis by blast
qed

text \<open>
  Claim C5 as stated fails: in the example world no report has id 9, and
  \<open>GetReportById\<close> does not return an empty result; it panics, and the handler
  answers 500.
\<close>

theorem get_missing_report_counterexample:
  "dbReachable example_world \<and> 9 \<notin> Report_Id ` set (report example_world) \<and>
   GetReportById example_world 9 = Inl ErrNoRows \<and>
   fst (HandleGetReport example_world (Some 9)) = (500, Message ''Error in getting report.'')"
  by (simp add: example_world_def GetReportById_def HandleGetReport_def)

text \<open>Claim C8 in the example world.\<close>

theorem empty_search_term_lists_all_witness:
  "dbReachable example_world \<and>
   fst (HandleGetReportList (\<lambda>s. EsNotOK) example_world '''') =
     (200, ReportListJson
       [\<lparr>Report_Id = 2, Report_FileName = ''a.txt'', Report_Name = ''Alpha'',
          Report_Author = ''Bob'', Report_Synopsis = ''t...'', Report_Text = ''''\<rparr>,
        \<lparr>Report_Id = 1, Report_FileName = ''b.txt'', Report_Name = ''Zeta'',
          Report_Author = ''Ann'', Report_Synopsis = ''s...'', Report_Text = ''''\<rparr>]) \<and>
   snd (HandleGetReportList (\<lambda>s. EsNotOK) example_world '''') = example_world"
proof -
  have r: "dbReachable example_world" by (simp add: example_world_def)
  have g: "GetAllReportList example_world = Inr
       [\<lparr>Report_Id = 2, Report_FileName = ''a.txt'', Report_Name = ''Alpha'',
          Report_Author = ''Bob'', Report_Synopsis = ''t...'', Report_Text = ''''\<rparr>,
        \<lparr>Report_Id = 1, Report_FileName = ''b.txt'', Report_Name = ''Zeta'',
          Report_Author = ''Ann'', Report_Synopsis = ''s...'', Report_Text = ''''\<rparr>]"
    by (simp add: example_world_def GetAllReportList_def)
  from empty_search_term_lists_all [of "\<lambda>s. EsNotOK" example_world] r g
  show ?thesis by auto
qed

section \<open>Properties of the tag diff\<close>

lemma active_of_None_iff:
  "active_of w r k = None \<longleftrightarrow>
     \<not> (\<exists>row\<in>set (report_tag w). rt_report_id row = r \<and> rt_tag_id row = k)"
  by (auto simp: active_of_def find_None_iff)

lemma active_of_insert:
  assumes "active_of w r k = None"
  shows "active_of (w\<lparr>report_tag := report_tag w @
             [\<lparr>rt_report_id = r, rt_tag_id = k, rt_active = a\<rparr>]\<rparr>) r' k' =
         (if r' = r \<and> k' = k then Some a else active_of w r' k')"
  using assms by (auto simp: active_of_def find_snoc split: option.splits)

lemma active_of_update:
  "active_of (w\<lparr>report_tag :=
       map (\<lambda>row. if rt_report_id row = r \<and> rt_tag_id row = k then row\<lparr>rt_active := a\<rparr> else row)
         (report_tag w)\<rparr>) r' k' =
     (if r' = r \<and> k' = k \<and> active_of w r k \<noteq> None then Some a else active_of w r' k')"
proof -
  have h: "map_option rt_active (find (\<lambda>row. rt_report_id row = r' \<and> rt_tag_id row = k')
      (map (\<lambda>row. if rt_report_id row = r \<and> rt_tag_id row = k then row\<lparr>rt_active := a\<rparr> else row) rows)) =
     (if r' = r \<and> k' = k \<and>
         map_option rt_active (find (\<lambda>row. rt_report_id row = r \<and> rt_tag_id row = k) rows) \<noteq> None
      then Some a
      else map_option rt_active (find (\<lambda>row. rt_report_id row = r' \<and> rt_tag_id row = k') rows))"
    for rows
    by (induction rows) auto
  have sel: "report_tag (w\<lparr>report_tag := X\<rparr>) = X" for X by simp
  show ?thesis unfolding active_of_def sel by (rule h)
qed

lemma active_of_delete:
  "active_of (w\<lparr>report_tag :=
       filter (\<lambda>row. \<not> (rt_report_id row = r \<and> rt_tag_id row = k)) (report_tag w)\<rparr>) r' k' =
     (if r' = r \<and> k' = k then None else active_of w r' k')"
proof -
  have h: "map_option rt_active (find (\<lambda>row. rt_report_id row = r' \<and> rt_tag_id row = k')
      (filter (\<lambda>row. \<not> (rt_report_id row = r \<and> rt_tag_id row = k)) rows)) =
     (if r' = r \<and> k' = k then None
      else map_option rt_active (find (\<lambda>row. rt_report_id row = r' \<and> rt_tag_id row = k') rows))"
    for rows
    by (induction rows) auto
  have sel: "report_tag (w\<lparr>report_tag := X\<rparr>) = X" for X by simp
  show ?thesis unfolding active_of_def sel by (rule h)
qed

lemma active_of_delete':
  "active_of (w\<lparr>report_tag :=
       filter (\<lambda>row. rt_report_id row = r \<longrightarrow> rt_tag_id row \<noteq> k) (report_tag w)\<rparr>) r' k' =
     (if r' = r \<and> k' = k then None else active_of w r' k')"
  using active_of_delete [where w=w and r=r and k=k and r'=r' and k'=k'] by simp

text \<open>One operation: when it succeeds, and what it does.\<close>

lemma apply_op_Inr_iff:
  "(\<exists>w'. apply_op r w op = Inr w') \<longleftrightarrow> dbReachable w \<and> op_ok r w op"
  by (cases op)
     (auto simp: insertReportTag_def updateReportTag_def deleteReportTag_def active_of_None_iff)

lemma apply_op_frame:
  assumes "apply_op r w op = Inr w'"
  shows "dbReachable w' = dbReachable w" "report w' = report w" "tag w' = tag w"
    "staticTextFiles w' = staticTextFiles w" "esRequests w' = esRequests w"
  using assms
  by (cases op; auto simp: insertReportTag_def updateReportTag_def deleteReportTag_def
        split: if_splits)+

lemma apply_op_active:
  assumes "apply_op r w op = Inr w'"
  shows "active_of w' r = op_effect op (active_of w r)"
    and "r' \<noteq> r \<Longrightarrow> active_of w' r' = active_of w r'"
proof -
  show "active_of w' r = op_effect op (active_of w r)"
  proof (cases op)
    case (InsertOp t)
    with assms have n: "active_of w r (Tag_Id t) = None"
      and w': "w' = w\<lparr>report_tag := report_tag w @
             [\<lparr>rt_report_id = r, rt_tag_id = Tag_Id t, rt_active = Active t\<rparr>]\<rparr>"
      by (auto simp: insertReportTag_def active_of_None_iff split: if_splits)
    show ?thesis unfolding w' InsertOp by (rule ext) (simp add: active_of_insert [OF n])
  next
    case (UpdateOp t)
    with assms have w': "w' = w\<lparr>report_tag :=
             map (\<lambda>row. if rt_report_id row = r \<and> rt_tag_id row = Tag_Id t
                        then row\<lparr>rt_active := Active t\<rparr> else row) (report_tag w)\<rparr>"
      by (auto simp: updateReportTag_def split: if_splits)
    show ?thesis unfolding w' UpdateOp by (rule ext) (simp add: active_of_update)
  next
    case (DeleteOp t)
    with assms have w': "w' = w\<lparr>report_tag :=
             filter (\<lambda>row. \<not> (rt_report_id row = r \<and> rt_tag_id row = Tag_Id t)) (report_tag w)\<rparr>"
      by (auto simp: deleteReportTag_def split: if_splits)
    show ?thesis unfolding w' DeleteOp by (rule ext) (simp add: active_of_delete')
  qed
next
  assume ne: "r' \<noteq> r"
  show "active_of w' r' = active_of w r'"
  proof (cases op)
    case (InsertOp t)
    with assms have n: "active_of w r (Tag_Id t) = None"
      and w': "w' = w\<lparr>report_tag := report_tag w @
             [\<lparr>rt_report_id = r, rt_tag_id = Tag_Id t, rt_active = Active t\<rparr>]\<rparr>"
      by (auto simp: insertReportTag_def active_of_None_iff split: if_splits)
    show ?thesis unfolding w' using ne by (intro ext) (simp add: active_of_insert [OF n])
  next
    case (UpdateOp t)
    with assms have w': "w' = w\<lparr>report_tag :=
             map (\<lambda>row. if rt_report_id row = r \<and> rt_tag_id row = Tag_Id t
                        then row\<lparr>rt_active := Active t\<rparr> else row) (report_tag w)\<rparr>"
      by (auto simp: updateReportTag_def split: if_splits)
    show ?thesis unfolding w' using ne by (intro ext) (simp add: active_of_update)
  next
    case (DeleteOp t)
    with assms have w': "w' = w\<lparr>report_tag :=
             filter (\<lambda>row. \<not> (rt_report_id row = r \<and> rt_tag_id row = Tag_Id t)) (report_tag w)\<rparr>"
      by (auto simp: deleteReportTag_def split: if_splits)
    show ?thesis unfolding w' using ne by (intro ext) (simp add: active_of_delete')
  qed
qed

lemma forEach_append:
  "forEach f (xs @ ys) w = (case forEach f xs w of Inl e \<Rightarrow> Inl e | Inr w' \<Rightarrow> forEach f ys w')"
  by (induction xs arbitrary: w) (auto split: sum.splits)

lemma forEach_map: "forEach f (map g xs) w = forEach (\<lambda>w x. f w (g x)) xs w"
  by (induction xs arbitrary: w) (auto split: sum.splits)

lemma forEach_ops:
  "forEach (insertReportTag r) ts w = forEach (apply_op r) (map InsertOp ts) w"
  "forEach (updateReportTag r) ts w = forEach (apply_op r) (map UpdateOp ts) w"
  "forEach (deleteReportTag r) ts w = forEach (apply_op r) (map DeleteOp ts) w"
  by (simp_all add: forEach_map)

lemma op_effect_other: "k \<noteq> op_key op \<Longrightarrow> op_effect op A k = A k"
  by (cases op) auto

lemma op_effect_local: "A (op_key op) = B (op_key op) \<Longrightarrow> op_effect op A (op_key op) = op_effect op B (op_key op)"
  by (cases op) auto

lemma fold_effect_notin: "k \<notin> op_key ` set ops \<Longrightarrow> fold op_effect ops A k = A k"
  by (induction ops arbitrary: A) (simp_all add: op_effect_other)

lemma fold_effect_in:
  "distinct (map op_key ops) \<Longrightarrow> op \<in> set ops \<Longrightarrow>
     fold op_effect ops A (op_key op) = op_effect op A (op_key op)"
proof (induction ops arbitrary: A)
  case Nil
  then show ?case by simp
next
  case (Cons x ops)
  show ?case
  proof (cases "op = x")
    case True
    with Cons.prems have "op_key op \<notin> op_key ` set ops" by auto
    then have "fold op_effect ops (op_effect x A) (op_key op) = op_effect x A (op_key op)"
      by (rule fold_effect_notin)
    with True show ?thesis by simp
  next
    case False
    with Cons.prems have m: "op \<in> set ops" and d: "distinct (map op_key ops)"
      and nx: "op_key x \<notin> op_key ` set ops" by auto
    from m nx have ne: "op_key op \<noteq> op_key x" by (metis imageI)
    have "fold op_effect ops (op_effect x A) (op_key op) = op_effect op (op_effect x A) (op_key op)"
      using d m by (rule Cons.IH)
    also have "\<dots> = op_effect op A (op_key op)"
      by (rule op_effect_local) (simp add: op_effect_other [OF ne])
    finally show ?thesis by simp
  qed
qed

lemma forEach_ops_frame:
  assumes "forEach (apply_op r) ops w = Inr w'"
  shows "dbReachable w' = dbReachable w \<and> report w' = report w \<and> tag w' = tag w \<and>
         staticTextFiles w' = staticTextFiles w \<and> esRequests w' = esRequests w"
  using assms
proof (induction ops arbitrary: w)
  case Nil
  then show ?case by simp
next
  case (Cons op ops)
  then obtain w1 where 1: "apply_op r w op = Inr w1" and 2: "forEach (apply_op r) ops w1 = Inr w'"
    by (auto split: sum.splits)
  from Cons.IH [OF 2] apply_op_frame [OF 1] show ?case by simp
qed

lemma forEach_ops_active:
  assumes "forEach (apply_op r) ops w = Inr w'"
  shows "active_of w' r = fold op_effect ops (active_of w r)"
    and "r' \<noteq> r \<Longrightarrow> active_of w' r' = active_of w r'"
  using assms
proof (induction ops arbitrary: w)
  case Nil
  { case 1 then show ?case by simp }
  { case 2 then show ?case by simp }
next
  case (Cons op ops)
  { case 1
    then obtain w1 where a: "apply_op r w op = Inr w1" and b: "forEach (apply_op r) ops w1 = Inr w'"
      by (auto split: sum.splits)
    from Cons.IH(1) [OF b] apply_op_active(1) [OF a] show ?case by simp }
  { case 2
    then obtain w1 where a: "apply_op r w op = Inr w1" and b: "forEach (apply_op r) ops w1 = Inr w'"
      by (auto split: sum.splits)
    from Cons.IH(2) [OF 2(1) b] apply_op_active(2) [OF a 2(1)] show ?case by simp }
qed

lemma op_ok_after:
  assumes "apply_op r w x = Inr w1" and "op_key op \<noteq> op_key x"
  shows "op_ok r w1 op = op_ok r w op"
proof -
  have "active_of w1 r (op_key op) = active_of w r (op_key op)"
    using apply_op_active(1) [OF assms(1)] op_effect_other [OF assms(2)] by simp
  with apply_op_frame [OF assms(1)] show ?thesis by (cases op) simp_all
qed

lemma forEach_ops_Inr_iff:
  "distinct (map op_key ops) \<Longrightarrow>
     (\<exists>w'. forEach (apply_op r) ops w = Inr w') \<longleftrightarrow>
     (ops = [] \<or> dbReachable w) \<and> (\<forall>op\<in>set ops. op_ok r w op)"
proof (induction ops arbitrary: w)
  case Nil
  then show ?case by simp
next
  case (Cons x ops)
  from Cons.prems have d: "distinct (map op_key ops)" and nx: "op_key x \<notin> op_key ` set ops"
    by auto
  from nx have nk: "\<forall>op\<in>set ops. op_key op \<noteq> op_key x" by (metis imageI)
  show ?case
  proof (cases "\<exists>w1. apply_op r w x = Inr w1")
    case False
    then have "\<not> (\<exists>w'. forEach (apply_op r) (x # ops) w = Inr w')"
      by (auto split: sum.splits)
    moreover from False have "\<not> (dbReachable w \<and> op_ok r w x)"
      by (simp add: apply_op_Inr_iff)
    ultimately show ?thesis by auto
  next
    case True
    then obtain w1 where w1: "apply_op r w x = Inr w1" by blast
    then have ok: "dbReachable w" "op_ok r w x"
      using apply_op_Inr_iff [of r w x] by auto
    have same: "\<forall>op\<in>set ops. op_ok r w1 op = op_ok r w op"
      using op_ok_after [OF w1] nk by blast
    have "(\<exists>w'. forEach (apply_op r) (x # ops) w = Inr w') \<longleftrightarrow>
          (\<exists>w'. forEach (apply_op r) ops w1 = Inr w')"
      by (simp add: w1)
    also have "\<dots> \<longleftrightarrow> (ops = [] \<or> dbReachable w1) \<and> (\<forall>op\<in>set ops. op_ok r w1 op)"
      by (rule Cons.IH [OF d])
    also have "\<dots> \<longleftrightarrow> (\<forall>op\<in>set ops. op_ok r w op)"
      using same apply_op_frame(1) [OF w1] ok(1) by auto
    finally show ?thesis using ok by auto
  qed
qed

lemma apply_op_consistent:
  assumes "apply_op r w op = Inr w'" and "store_consistent w"
  shows "store_consistent w'"
proof (cases op)
  case (InsertOp t)
  with assms(1) have n: "\<not> (\<exists>row\<in>set (report_tag w). rt_report_id row = r \<and> rt_tag_id row = Tag_Id t)"
    and fk: "r \<in> Report_Id ` set (report w)" "Tag_Id t \<in> tag_id ` set (tag w)"
    and w': "w' = w\<lparr>report_tag := report_tag w @
             [\<lparr>rt_report_id = r, rt_tag_id = Tag_Id t, rt_active = Active t\<rparr>]\<rparr>"
    by (auto simp: insertReportTag_def split: if_splits)
  from n have "(r, Tag_Id t) \<notin> (\<lambda>row. (rt_report_id row, rt_tag_id row)) ` set (report_tag w)"
    by auto
  with assms(2) fk show ?thesis unfolding w' store_consistent_def by auto
next
  case (UpdateOp t)
  with assms(1) have w': "w' = w\<lparr>report_tag :=
             map (\<lambda>row. if rt_report_id row = r \<and> rt_tag_id row = Tag_Id t
                        then row\<lparr>rt_active := Active t\<rparr> else row) (report_tag w)\<rparr>"
    by (auto simp: updateReportTag_def split: if_splits)
  have k: "map (\<lambda>row. (rt_report_id row, rt_tag_id row))
      (map (\<lambda>row. if rt_report_id row = r \<and> rt_tag_id row = Tag_Id t
                        then row\<lparr>rt_active := Active t\<rparr> else row) rows) =
      map (\<lambda>row. (rt_report_id row, rt_tag_id row)) rows" for rows
    by (induction rows) auto
  let ?f = "\<lambda>row. if rt_report_id row = r \<and> rt_tag_id row = Tag_Id t
                        then row\<lparr>rt_active := Active t\<rparr> else row"
  have rt: "report_tag w' = map ?f (report_tag w)" "report w' = report w" "tag w' = tag w"
    unfolding w' by simp_all
  from assms(2) have 1: "distinct (map (\<lambda>row. (rt_report_id row, rt_tag_id row)) (report_tag w'))"
    unfolding rt k store_consistent_def by simp
  have 2: "rt_report_id row \<in> Report_Id ` set (report w') \<and> rt_tag_id row \<in> tag_id ` set (tag w')"
    if "row \<in> set (report_tag w')" for row
  proof -
    from that obtain row0 where r0: "row0 \<in> set (report_tag w)" and e: "row = ?f row0"
      unfolding rt by auto
    from e have "rt_report_id row = rt_report_id row0" "rt_tag_id row = rt_tag_id row0"
      by (simp_all split: if_splits)
    with assms(2) r0 show ?thesis unfolding rt store_consistent_def by simp
  qed
  from 1 2 show ?thesis unfolding store_consistent_def by blast
next
  case (DeleteOp t)
  with assms(1) have w': "w' = w\<lparr>report_tag :=
             filter (\<lambda>row. \<not> (rt_report_id row = r \<and> rt_tag_id row = Tag_Id t)) (report_tag w)\<rparr>"
    by (auto simp: deleteReportTag_def split: if_splits)
  from assms(2) show ?thesis unfolding w' store_consistent_def
    by (auto simp: distinct_map_filter)
qed

lemma forEach_ops_consistent:
  "forEach (apply_op r) ops w = Inr w' \<Longrightarrow> store_consistent w \<Longrightarrow> store_consistent w'"
proof (induction ops arbitrary: w)
  case Nil
  then show ?case by simp
next
  case (Cons op ops)
  then obtain w1 where 1: "apply_op r w op = Inr w1" and 2: "forEach (apply_op r) ops w1 = Inr w'"
    by (auto split: sum.splits)
  from Cons.IH [OF 2 apply_op_consistent [OF 1 Cons.prems(2)]] show ?case .
qed

lemma update_entry:
  "(k', v') \<in> set (AList.update k v al) \<Longrightarrow> (k', v') = (k, v) \<or> (k', v') \<in> set al"
  by (induction al) (auto split: if_splits)

lemma fold_update_distinct:
  "distinct (map fst m) \<Longrightarrow>
     distinct (map fst (fold (\<lambda>t m. AList.update (Tag_Id t) t m) l m))"
  by (induction l arbitrary: m) (simp_all add: distinct_update)

lemma fold_update_keys:
  "fst ` set (fold (\<lambda>t m. AList.update (Tag_Id t) t m) l m) = fst ` set m \<union> Tag_Id ` set l"
  by (induction l arbitrary: m) (auto simp: dom_update)

lemma fold_update_entry:
  "(k, v) \<in> set (fold (\<lambda>t m. AList.update (Tag_Id t) t m) l m) \<Longrightarrow>
     (k, v) \<in> set m \<or> (v \<in> set l \<and> Tag_Id v = k)"
proof (induction l arbitrary: m)
  case Nil
  then show ?case by simp
next
  case (Cons t l)
  from Cons.prems have "(k, v) \<in> set (fold (\<lambda>t m. AList.update (Tag_Id t) t m) l
      (AList.update (Tag_Id t) t m))" by simp
  from Cons.IH [OF this] show ?case
    by (auto dest: update_entry)
qed

lemma list_to_map_distinct: "distinct (map fst (list_to_map l))"
  unfolding list_to_map_def by (rule fold_update_distinct) simp

lemma list_to_map_keys: "fst ` set (list_to_map l) = Tag_Id ` set l"
  unfolding list_to_map_def by (simp add: fold_update_keys)

lemma list_to_map_entry: "(k, v) \<in> set (list_to_map l) \<Longrightarrow> v \<in> set l \<and> Tag_Id v = k"
  unfolding list_to_map_def by (drule fold_update_entry) simp

lemma delete_filter: "AList.delete k al = filter (\<lambda>p. fst p \<noteq> k) al"
  by (induction al) auto

lemma diff_loop_closed:
  "diff_loop cs (U0, sm, cm) =
     (U0 @ updates_of cs sm,
      filter (\<lambda>p. fst p \<notin> Tag_Id ` set cs) sm,
      filter (\<lambda>p. fst p \<notin> Tag_Id ` set cs \<inter> fst ` set sm) cm)"
proof (induction cs arbitrary: U0 sm cm)
  case Nil
  show ?case by simp
next
  case (Cons c cs)
  let ?k = "Tag_Id c"
  show ?case
  proof (cases "map_of sm ?k")
    case None
    then have nk: "?k \<notin> fst ` set sm" by (simp add: map_of_eq_None_iff)
    have 1: "filter (\<lambda>p. fst p \<notin> Tag_Id ` set (c # cs)) sm =
             filter (\<lambda>p. fst p \<notin> Tag_Id ` set cs) sm"
      using nk by (intro filter_cong refl) force
    have 2: "filter (\<lambda>p. fst p \<notin> Tag_Id ` set (c # cs) \<inter> fst ` set sm) cm =
             filter (\<lambda>p. fst p \<notin> Tag_Id ` set cs \<inter> fst ` set sm) cm"
      using nk by (intro filter_cong refl) auto
    have "diff_loop (c # cs) (U0, sm, cm) = diff_loop cs (U0, sm, cm)"
      using None by simp
    also have "\<dots> = (U0 @ updates_of cs sm,
        filter (\<lambda>p. fst p \<notin> Tag_Id ` set cs) sm,
        filter (\<lambda>p. fst p \<notin> Tag_Id ` set cs \<inter> fst ` set sm) cm)"
      by (rule Cons.IH)
    also have "updates_of cs sm = updates_of (c # cs) sm"
      using None by simp
    finally show ?thesis unfolding 1 2 .
  next
    case (Some s)
    then have ik: "?k \<in> fst ` set sm" by (metis map_of_eq_None_iff option.distinct(1))
    have keys: "fst ` set (AList.delete ?k sm) = fst ` set sm - {?k}"
      by (auto simp: delete_filter)
    have 1: "filter (\<lambda>p. fst p \<notin> Tag_Id ` set cs) (AList.delete ?k sm) =
             filter (\<lambda>p. fst p \<notin> Tag_Id ` set (c # cs)) sm"
      unfolding delete_filter filter_filter by (intro filter_cong refl) auto
    have 2: "filter (\<lambda>p. fst p \<notin> Tag_Id ` set cs \<inter> fst ` set (AList.delete ?k sm))
               (AList.delete ?k cm) =
             filter (\<lambda>p. fst p \<notin> Tag_Id ` set (c # cs) \<inter> fst ` set sm) cm"
      unfolding keys unfolding delete_filter filter_filter
      using ik by (intro filter_cong refl) auto
    let ?U = "if Active s \<noteq> Active c then U0 @ [c] else U0"
    have "diff_loop (c # cs) (U0, sm, cm) =
          diff_loop cs (?U, AList.delete ?k sm, AList.delete ?k cm)"
      using Some by simp
    also have "\<dots> = (?U @ updates_of cs (AList.delete ?k sm),
        filter (\<lambda>p. fst p \<notin> Tag_Id ` set cs) (AList.delete ?k sm),
        filter (\<lambda>p. fst p \<notin> Tag_Id ` set cs \<inter> fst ` set (AList.delete ?k sm))
               (AList.delete ?k cm))"
      by (rule Cons.IH)
    also have "?U @ updates_of cs (AList.delete ?k sm) = U0 @ updates_of (c # cs) sm"
      using Some by simp
    finally show ?thesis unfolding 1 2 .
  qed
qed

lemma updates_of_subset: "set (updates_of cs sm) \<subseteq> set cs"
  by (induction cs arbitrary: sm) (auto split: option.splits)

lemma updates_of_differ:
  "u \<in> set (updates_of cs sm) \<Longrightarrow> \<exists>s. map_of sm (Tag_Id u) = Some s \<and> Active s \<noteq> Active u"
proof (induction cs arbitrary: sm)
  case Nil
  then show ?case by simp
next
  case (Cons c cs)
  show ?case
  proof (cases "map_of sm (Tag_Id c)")
    case None
    with Cons.prems have "u \<in> set (updates_of cs sm)" by simp
    then show ?thesis by (rule Cons.IH)
  next
    case (Some s)
    with Cons.prems consider "u = c" "Active s \<noteq> Active c"
      | "u \<in> set (updates_of cs (AList.delete (Tag_Id c) sm))"
      by (auto split: if_splits)
    then show ?thesis
    proof cases
      case 1
      with Some show ?thesis by simp
    next
      case 2
      from Cons.IH [OF 2] obtain s' where
        "map_of (AList.delete (Tag_Id c) sm) (Tag_Id u) = Some s'" "Active s' \<noteq> Active u"
        by blast
      then show ?thesis by (auto simp: delete_conv split: if_splits)
    qed
  qed
qed

lemma updates_of_distinct: "distinct (map Tag_Id (updates_of cs sm))"
proof (induction cs arbitrary: sm)
  case Nil
  show ?case by simp
next
  case (Cons c cs)
  show ?case
  proof (cases "map_of sm (Tag_Id c)")
    case None
    then show ?thesis by (simp add: Cons.IH)
  next
    case (Some s)
    have "Tag_Id c \<notin> Tag_Id ` set (updates_of cs (AList.delete (Tag_Id c) sm))"
    proof
      assume "Tag_Id c \<in> Tag_Id ` set (updates_of cs (AList.delete (Tag_Id c) sm))"
      then obtain u where u: "u \<in> set (updates_of cs (AList.delete (Tag_Id c) sm))"
        and e: "Tag_Id u = Tag_Id c" by auto
      from updates_of_differ [OF u] e show False by (simp add: delete_conv)
    qed
    with Some show ?thesis by (simp add: Cons.IH)
  qed
qed

lemma updates_of_complete:
  "c \<in> set cs \<Longrightarrow> map_of sm (Tag_Id c) = Some s \<Longrightarrow>
   \<forall>c'\<in>set cs. Tag_Id c' = Tag_Id c \<longrightarrow> Active c' \<noteq> Active s \<Longrightarrow>
   Tag_Id c \<in> Tag_Id ` set (updates_of cs sm)"
proof (induction cs arbitrary: sm)
  case Nil
  then show ?case by simp
next
  case (Cons x cs)
  show ?case
  proof (cases "Tag_Id x = Tag_Id c")
    case True
    with Cons.prems have "map_of sm (Tag_Id x) = Some s" "Active x \<noteq> Active s" by auto
    then have "x \<in> set (updates_of (x # cs) sm)" by auto
    with True show ?thesis by (metis imageI)
  next
    case False
    with Cons.prems have m: "c \<in> set cs" by auto
    from Cons.prems have a: "\<forall>c'\<in>set cs. Tag_Id c' = Tag_Id c \<longrightarrow> Active c' \<noteq> Active s" by simp
    show ?thesis
    proof (cases "map_of sm (Tag_Id x)")
      case None
      from Cons.IH [OF m Cons.prems(2) a] None show ?thesis by simp
    next
      case (Some sx)
      from Cons.prems(2) False
      have "map_of (AList.delete (Tag_Id x) sm) (Tag_Id c) = Some s"
        by (simp add: delete_conv)
      from Cons.IH [OF m this a] Some show ?thesis by auto
    qed
  qed
qed

lemma tag_diff_closed:
  "tag_diff ro S C =
     (ro (map snd (filter (\<lambda>p. fst p \<notin> Tag_Id ` set S) (list_to_map C))),
      updates_of C (list_to_map S),
      ro (map snd (filter (\<lambda>p. fst p \<notin> Tag_Id ` set C) (list_to_map S))))"
proof -
  have "filter (\<lambda>p. fst p \<notin> Tag_Id ` set C \<inter> fst ` set (list_to_map S)) (list_to_map C) =
        filter (\<lambda>p. fst p \<notin> Tag_Id ` set S) (list_to_map C)"
    using list_to_map_keys [of C] list_to_map_keys [of S]
    by (intro filter_cong refl) auto
  then show ?thesis
    by (simp add: tag_diff_def diff_loop_closed Let_def)
qed



text \<open>The entries left in a map.\<close>

lemma rest_ids:
  "map Tag_Id (map snd (filter Q (list_to_map l))) = map fst (filter Q (list_to_map l))"
  by (rule list.map_cong0 [THEN trans [OF list.map_comp]]) (auto dest: list_to_map_entry)

lemma rest_distinct: "distinct (map Tag_Id (map snd (filter Q (list_to_map l))))"
  unfolding rest_ids by (rule distinct_map_filter) (rule list_to_map_distinct)

lemma rest_mem: "x \<in> set (map snd (filter Q (list_to_map l))) \<Longrightarrow> x \<in> set l"
  by (auto dest: list_to_map_entry)

lemma rest_id_set:
  "Tag_Id ` set (map snd (filter (\<lambda>p. fst p \<notin> X) (list_to_map l))) = Tag_Id ` set l - X"
proof -
  have "Tag_Id ` set (map snd (filter (\<lambda>p. fst p \<notin> X) (list_to_map l))) =
        set (map Tag_Id (map snd (filter (\<lambda>p. fst p \<notin> X) (list_to_map l))))"
    by (simp only: set_map)
  also have "\<dots> = fst ` set (filter (\<lambda>p. fst p \<notin> X) (list_to_map l))"
    unfolding rest_ids by simp
  also have "\<dots> = fst ` set (list_to_map l) - X" by auto
  finally show ?thesis by (simp add: list_to_map_keys)
qed

lemma permuted:
  assumes "\<forall>xs. mset (ro xs) = mset xs"
  shows "set (ro xs) = set xs" and "distinct (map f (ro xs)) = distinct (map f xs)"
proof -
  from assms have m: "mset (ro xs) = mset xs" by simp
  then show "set (ro xs) = set xs" by (rule mset_eq_setD)
  from m have "mset (map f (ro xs)) = mset (map f xs)" by simp
  then show "distinct (map f (ro xs)) = distinct (map f xs)"
    by (rule mset_eq_imp_distinct_iff)
qed

text \<open>What the three lists of the diff are.\<close>

lemma tag_diff_parts:
  assumes "tag_diff ro S C = (ins, upd, del)" and "\<forall>xs. mset (ro xs) = mset xs"
  shows "set ins \<subseteq> set C" "Tag_Id ` set ins = Tag_Id ` set C - Tag_Id ` set S"
    "distinct (map Tag_Id ins)"
    "set del \<subseteq> set S" "Tag_Id ` set del = Tag_Id ` set S - Tag_Id ` set C"
    "distinct (map Tag_Id del)"
    "upd = updates_of C (list_to_map S)"
    "set upd \<subseteq> set C" "Tag_Id ` set upd \<subseteq> Tag_Id ` set C \<inter> Tag_Id ` set S"
    "distinct (map Tag_Id upd)"
proof -
  from assms(1) have
    i: "ins = ro (map snd (filter (\<lambda>p. fst p \<notin> Tag_Id ` set S) (list_to_map C)))" and
    u: "upd = updates_of C (list_to_map S)" and
    d: "del = ro (map snd (filter (\<lambda>p. fst p \<notin> Tag_Id ` set C) (list_to_map S)))"
    by (simp_all add: tag_diff_closed)
  show "set ins \<subseteq> set C" unfolding i permuted(1) [OF assms(2)] using rest_mem by blast
  show "Tag_Id ` set ins = Tag_Id ` set C - Tag_Id ` set S"
    unfolding i permuted(1) [OF assms(2)] by (rule rest_id_set)
  show "distinct (map Tag_Id ins)"
    unfolding i permuted(2) [OF assms(2)] by (rule rest_distinct)
  show "set del \<subseteq> set S" unfolding d permuted(1) [OF assms(2)] using rest_mem by blast
  show "Tag_Id ` set del = Tag_Id ` set S - Tag_Id ` set C"
    unfolding d permuted(1) [OF assms(2)] by (rule rest_id_set)
  show "distinct (map Tag_Id del)"
    unfolding d permuted(2) [OF assms(2)] by (rule rest_distinct)
  show "upd = updates_of C (list_to_map S)" by (rule u)
  show "set upd \<subseteq> set C" unfolding u by (rule updates_of_subset)
  show "Tag_Id ` set upd \<subseteq> Tag_Id ` set C \<inter> Tag_Id ` set S"
  proof
    fix k assume "k \<in> Tag_Id ` set upd"
    then obtain x where x: "x \<in> set (updates_of C (list_to_map S))" "k = Tag_Id x"
      unfolding u by auto
    from updates_of_differ [OF x(1)] have "Tag_Id x \<in> fst ` set (list_to_map S)"
      by (metis map_of_eq_None_iff option.distinct(1))
    moreover from x(1) have "x \<in> set C" using updates_of_subset by blast
    ultimately show "k \<in> Tag_Id ` set C \<inter> Tag_Id ` set S"
      unfolding x(2) by (simp add: list_to_map_keys)
  qed
  show "distinct (map Tag_Id upd)" unfolding u by (rule updates_of_distinct)
qed

lemma diff_ops_distinct:
  assumes "tag_diff ro S C = (ins, upd, del)" and "\<forall>xs. mset (ro xs) = mset xs"
  shows "distinct (map op_key (map InsertOp ins @ map UpdateOp upd @ map DeleteOp del))"
proof -
  note p = tag_diff_parts [OF assms]
  have k: "map op_key (map InsertOp ins) = map Tag_Id ins"
    "map op_key (map UpdateOp upd) = map Tag_Id upd"
    "map op_key (map DeleteOp del) = map Tag_Id del"
    by simp_all
  have "set (map Tag_Id ins) \<inter> set (map Tag_Id upd) = {}"
    "set (map Tag_Id ins) \<inter> set (map Tag_Id del) = {}"
    "set (map Tag_Id upd) \<inter> set (map Tag_Id del) = {}"
    using p(2,5,9) by auto
  with p(3,6,10) show ?thesis
    unfolding map_append k distinct_append by (simp add: Int_Un_distrib)
qed

lemma update_as_ops:
  assumes "UpdateReportTagListByReportId ro w r C = Inr w'"
  obtains S ins upd del where "dbReachable w" "GetReportTagListByReportId w r = Inr S"
    "tag_diff ro S C = (ins, upd, del)"
    "forEach (apply_op r) (map InsertOp ins @ map UpdateOp upd @ map DeleteOp del) w = Inr w'"
proof -
  from assms have r: "dbReachable w"
    by (auto simp: UpdateReportTagListByReportId_def split: if_splits)
  with assms obtain S where S: "GetReportTagListByReportId w r = Inr S"
    by (auto simp: UpdateReportTagListByReportId_def split: sum.splits)
  obtain ins upd del where d: "tag_diff ro S C = (ins, upd, del)"
    by (cases "tag_diff ro S C") auto
  from assms r S d have
    "(case forEach (insertReportTag r) ins w of
        Inl e \<Rightarrow> Inl e
      | Inr w1 \<Rightarrow>
          (case forEach (updateReportTag r) upd w1 of
             Inl e \<Rightarrow> Inl e
           | Inr w2 \<Rightarrow> forEach (deleteReportTag r) del w2)) = Inr w'"
    by (simp add: UpdateReportTagListByReportId_def)
  then have "forEach (apply_op r) (map InsertOp ins @ map UpdateOp upd @ map DeleteOp del) w = Inr w'"
    unfolding forEach_append forEach_ops .
  with r S d show ?thesis by (rule that)
qed

lemma row_iff_active:
  assumes "distinct (map (\<lambda>row. (rt_report_id row, rt_tag_id row)) (report_tag w))"
  shows "row \<in> set (report_tag w) \<longleftrightarrow>
         active_of w (rt_report_id row) (rt_tag_id row) = Some (rt_active row)"
proof
  assume "row \<in> set (report_tag w)"
  from find_unique_key [OF assms this]
  have "find (\<lambda>y. rt_report_id y = rt_report_id row \<and> rt_tag_id y = rt_tag_id row) (report_tag w)
        = Some row" by simp
  then show "active_of w (rt_report_id row) (rt_tag_id row) = Some (rt_active row)"
    by (simp add: active_of_def)
next
  assume "active_of w (rt_report_id row) (rt_tag_id row) = Some (rt_active row)"
  then obtain row' where f: "find (\<lambda>y. rt_report_id y = rt_report_id row \<and> rt_tag_id y = rt_tag_id row)
      (report_tag w) = Some row'" and a: "rt_active row' = rt_active row"
    by (auto simp: active_of_def)
  from f have "row' \<in> set (report_tag w)" "rt_report_id row' = rt_report_id row"
    "rt_tag_id row' = rt_tag_id row"
    by (auto simp: find_Some_iff)
  with a show "row \<in> set (report_tag w)" by (cases row; cases row') simp
qed



text \<open>Rows whose tags all have a colour are scanned without error.\<close>

lemma scan_tag_rows_coloured:
  "\<forall>p\<in>set rows. tag_color (fst p) \<noteq> None \<Longrightarrow> \<exists>S. scan_tag_rows rows = Inr S"
proof (induction rows)
  case Nil
  then show ?case by simp
next
  case (Cons p rows)
  obtain t a where p: "p = (t, a)" by (cases p) auto
  from Cons.prems p obtain color where c: "tag_color t = Some color" by auto
  from Cons.prems have "\<forall>p\<in>set rows. tag_color (fst p) \<noteq> None" by simp
  from Cons.IH [OF this] obtain S where S: "scan_tag_rows rows = Inr S" ..
  show ?case unfolding p by (simp add: c S)
qed

lemma scan_tag_rows_pairs:
  "scan_tag_rows rows = Inr S \<Longrightarrow>
     map (\<lambda>s. (Tag_Id s, Active s)) S = map (\<lambda>p. (tag_id (fst p), snd p)) rows"
proof (induction rows arbitrary: S)
  case Nil
  then show ?case by simp
next
  case (Cons p rows)
  obtain t a where p: "p = (t, a)" by (cases p)
  from Cons.prems p obtain color S' where c: "tag_color t = Some color"
    and S': "scan_tag_rows rows = Inr S'"
    and S: "S = \<lparr>Tag_Id = tag_id t, Tag_Name = tag_name t, Tag_Color = color, Active = a\<rparr> # S'"
    by (auto split: option.splits sum.splits)
  from Cons.IH [OF S'] show ?case unfolding S p by simp
qed

lemma server_list_pairs:
  assumes "GetReportTagListByReportId w r = Inr S"
  shows "(\<lambda>s. (Tag_Id s, Active s)) ` set S =
         (\<lambda>p. (tag_id (fst p), snd p)) ` set (report_tag_join w r)"
proof -
  from assms have "scan_tag_rows (report_tag_join w r) = Inr S"
    by (auto simp: GetReportTagListByReportId_def split: if_splits)
  from scan_tag_rows_pairs [OF this]
  have "set (map (\<lambda>s. (Tag_Id s, Active s)) S) =
        set (map (\<lambda>p. (tag_id (fst p), snd p)) (report_tag_join w r))" by simp
  then show ?thesis by (simp only: set_map)
qed

lemma server_list_sound:
  assumes "store_consistent w" and "GetReportTagListByReportId w r = Inr S" and "s \<in> set S"
  shows "active_of w r (Tag_Id s) = Some (Active s)"
proof -
  from assms(3) have "(Tag_Id s, Active s) \<in> (\<lambda>s. (Tag_Id s, Active s)) ` set S" by (rule imageI)
  then obtain p where p: "p \<in> set (report_tag_join w r)" "Tag_Id s = tag_id (fst p)" "Active s = snd p"
    unfolding server_list_pairs [OF assms(2)] by auto
  from p(1) obtain t rt where "p = (t, rt_active rt)" "rt \<in> set (report_tag w)"
    "rt_report_id rt = r" "tag_id t = rt_tag_id rt"
    unfolding set_report_tag_join by blast
  with p have rt: "rt \<in> set (report_tag w)" "rt_report_id rt = r" "rt_tag_id rt = Tag_Id s"
    "rt_active rt = Active s" by simp_all
  from assms(1) have "distinct (map (\<lambda>row. (rt_report_id row, rt_tag_id row)) (report_tag w))"
    by (simp add: store_consistent_def)
  from row_iff_active [OF this, of rt] rt show ?thesis by simp
qed

lemma server_list_complete:
  assumes "store_consistent w" and "GetReportTagListByReportId w r = Inr S"
    and "active_of w r k = Some a"
  shows "\<exists>s\<in>set S. Tag_Id s = k \<and> Active s = a"
proof -
  from assms(3) obtain rt where f: "find (\<lambda>row. rt_report_id row = r \<and> rt_tag_id row = k)
      (report_tag w) = Some rt" and a: "rt_active rt = a"
    by (auto simp: active_of_def)
  from f have rt: "rt \<in> set (report_tag w)" "rt_report_id rt = r" "rt_tag_id rt = k"
    by (auto simp: find_Some_iff)
  with assms(1) have "r \<in> Report_Id ` set (report w)" "k \<in> tag_id ` set (tag w)"
    unfolding store_consistent_def by blast+
  then obtain t where t: "t \<in> set (tag w)" "tag_id t = k" by auto
  with rt \<open>r \<in> Report_Id ` set (report w)\<close> have "(t, rt_active rt) \<in> set (report_tag_join w r)"
    unfolding set_report_tag_join by blast
  then have "(\<lambda>p. (tag_id (fst p), snd p)) (t, rt_active rt)
      \<in> (\<lambda>p. (tag_id (fst p), snd p)) ` set (report_tag_join w r)" by (rule imageI)
  then have "(k, a) \<in> (\<lambda>s. (Tag_Id s, Active s)) ` set S"
    unfolding server_list_pairs [OF assms(2)] using t a by simp
  then show ?thesis by auto
qed

lemma list_to_map_lookup:
  assumes "k \<in> Tag_Id ` set l"
  obtains s where "map_of (list_to_map l) k = Some s" "s \<in> set l" "Tag_Id s = k"
proof -
  from assms have "k \<in> fst ` set (list_to_map l)" by (simp add: list_to_map_keys)
  then obtain s where s: "map_of (list_to_map l) k = Some s"
    by (metis map_of_eq_None_iff not_Some_eq)
  then have "(k, s) \<in> set (list_to_map l)" by (rule map_of_SomeD)
  from list_to_map_entry [OF this] s show ?thesis by (intro that) auto
qed

lemma flags_agreeD: "flags_agree l \<Longrightarrow> x \<in> set l \<Longrightarrow> y \<in> set l \<Longrightarrow> Tag_Id x = Tag_Id y
    \<Longrightarrow> Active x = Active y"
  unfolding flags_agree_def by blast

lemma update_result:
  assumes u: "UpdateReportTagListByReportId ro w r C = Inr w'"
    and ro: "\<forall>xs. mset (ro xs) = mset xs"
    and sc: "store_consistent w"
    and fa: "flags_agree C"
  shows "c \<in> set C \<Longrightarrow> active_of w' r (Tag_Id c) = Some (Active c)"
    and "k \<notin> Tag_Id ` set C \<Longrightarrow> active_of w' r k = None"
    and "r' \<noteq> r \<Longrightarrow> active_of w' r' = active_of w r'"
    and "store_consistent w'"
proof -
  from u obtain S ins upd del where S: "GetReportTagListByReportId w r = Inr S"
    and d: "tag_diff ro S C = (ins, upd, del)"
    and f: "forEach (apply_op r) (map InsertOp ins @ map UpdateOp upd @ map DeleteOp del) w = Inr w'"
    by (rule update_as_ops)
  let ?cops = "map InsertOp ins @ map UpdateOp upd @ map DeleteOp del"
  let ?A = "active_of w r"
  note p = tag_diff_parts [OF d ro]
  have dist: "distinct (map op_key ?cops)" by (rule diff_ops_distinct [OF d ro])
  have A': "active_of w' r = fold op_effect ?cops ?A" by (rule forEach_ops_active(1) [OF f])
  have keys: "op_key ` set ?cops = Tag_Id ` set ins \<union> Tag_Id ` set upd \<union> Tag_Id ` set del"
    by (simp add: image_Un image_image Un_assoc)
  have at: "active_of w' r (op_key op) = op_effect op ?A (op_key op)" if "op \<in> set ?cops" for op
    unfolding A' by (rule fold_effect_in [OF dist that])
  have out: "active_of w' r k = ?A k" if "k \<notin> op_key ` set ?cops" for k
    unfolding A' by (rule fold_effect_notin [OF that])
  show "store_consistent w'" by (rule forEach_ops_consistent [OF f sc])
  show "active_of w' r' = active_of w r'" if "r' \<noteq> r"
    by (rule forEach_ops_active(2) [OF f that])
  show "active_of w' r k = None" if nk: "k \<notin> Tag_Id ` set C" for k
  proof (cases "k \<in> Tag_Id ` set S")
    case True
    with nk have "k \<in> Tag_Id ` set del" unfolding p(5) by simp
    then obtain x where x: "x \<in> set del" "Tag_Id x = k" by auto
    then have "DeleteOp x \<in> set ?cops" by simp
    from at [OF this] x(2) show ?thesis by simp
  next
    case False
    have "?A k = None"
    proof (rule ccontr)
      assume "?A k \<noteq> None"
      then obtain a where "?A k = Some a" by auto
      from server_list_complete [OF sc S this] False show False by auto
    qed
    moreover have "k \<notin> op_key ` set ?cops"
    proof -
      from nk p(2) have "k \<notin> Tag_Id ` set ins" by simp
      moreover from nk p(9) have "k \<notin> Tag_Id ` set upd" by blast
      moreover from False p(5) have "k \<notin> Tag_Id ` set del" by simp
      ultimately show ?thesis unfolding keys by simp
    qed
    ultimately show ?thesis using out by simp
  qed
  show "active_of w' r (Tag_Id c) = Some (Active c)" if c: "c \<in> set C" for c
  proof (cases "Tag_Id c \<in> Tag_Id ` set S")
    case False
    with c have "Tag_Id c \<in> Tag_Id ` set ins" unfolding p(2) by simp
    then obtain x where x: "x \<in> set ins" "Tag_Id x = Tag_Id c" by auto
    with p(1) have "x \<in> set C" by blast
    from flags_agreeD [OF fa this c x(2)] have a: "Active x = Active c" .
    from x have "InsertOp x \<in> set ?cops" by simp
    from at [OF this] x(2) a show ?thesis by simp
  next
    case True
    then obtain s where s: "map_of (list_to_map S) (Tag_Id c) = Some s" "s \<in> set S"
      "Tag_Id s = Tag_Id c" by (rule list_to_map_lookup)
    from server_list_sound [OF sc S s(2)] s(3) have A: "?A (Tag_Id c) = Some (Active s)" by simp
    show ?thesis
    proof (cases "Tag_Id c \<in> Tag_Id ` set upd")
      case True
      then obtain x where x: "x \<in> set upd" "Tag_Id x = Tag_Id c" by auto
      with p(8) have "x \<in> set C" by blast
      from flags_agreeD [OF fa this c x(2)] have a: "Active x = Active c" .
      from x have "UpdateOp x \<in> set ?cops" by simp
      from at [OF this] x(2) a A show ?thesis by simp
    next
      case False
      have "\<not> (\<forall>c'\<in>set C. Tag_Id c' = Tag_Id c \<longrightarrow> Active c' \<noteq> Active s)"
      proof
        assume "\<forall>c'\<in>set C. Tag_Id c' = Tag_Id c \<longrightarrow> Active c' \<noteq> Active s"
        from updates_of_complete [OF c s(1) this] False show False unfolding p(7) by simp
      qed
      then obtain c' where c': "c' \<in> set C" "Tag_Id c' = Tag_Id c" "Active c' = Active s" by blast
      from flags_agreeD [OF fa c'(1) c c'(2)] c'(3) have a: "Active s = Active c" by simp
      have "Tag_Id c \<notin> op_key ` set ?cops"
      proof -
        from True p(2) have "Tag_Id c \<notin> Tag_Id ` set ins" by simp
        moreover from c p(5) have "Tag_Id c \<notin> Tag_Id ` set del" by simp
        ultimately show ?thesis using False unfolding keys by simp
      qed
      from out [OF this] A a show ?thesis by simp
    qed
  qed
qed

text \<open>
  The update returns normally when the store is reachable and consistent, the tags
  of the report can be read, the report exists and every tag id of the client list
  is in the tag catalogue.
\<close>

lemma update_eq_ops:
  assumes "dbReachable w" and "GetReportTagListByReportId w r = Inr S"
    and "tag_diff ro S C = (ins, upd, del)"
  shows "UpdateReportTagListByReportId ro w r C =
         forEach (apply_op r) (map InsertOp ins @ map UpdateOp upd @ map DeleteOp del) w"
  unfolding forEach_append forEach_ops [symmetric]
  using assms by (simp add: UpdateReportTagListByReportId_def)

lemma update_returns:
  assumes "dbReachable w" and "store_consistent w"
    and "GetReportTagListByReportId w reportId = Inr serverList"
    and "reportId \<in> Report_Id ` set (report w)"
    and "Tag_Id ` set clientList \<subseteq> tag_id ` set (tag w)"
    and "\<forall>xs. mset (rangeOrder xs) = mset xs"
  shows "\<exists>w'. UpdateReportTagListByReportId rangeOrder w reportId clientList = Inr w'"
proof -
  obtain ins upd del where d: "tag_diff rangeOrder serverList clientList = (ins, upd, del)"
    by (cases "tag_diff rangeOrder serverList clientList") auto
  let ?cops = "map InsertOp ins @ map UpdateOp upd @ map DeleteOp del"
  note p = tag_diff_parts [OF d assms(6)]
  have ok: "op_ok reportId w op" if "op \<in> set ?cops" for op
  proof (cases op)
    case (InsertOp x)
    with that have x: "x \<in> set ins" by auto
    then have "Tag_Id x \<in> Tag_Id ` set ins" by (rule imageI)
    then have k: "Tag_Id x \<in> Tag_Id ` set clientList" "Tag_Id x \<notin> Tag_Id ` set serverList"
      unfolding p(2) by simp_all
    have "active_of w reportId (Tag_Id x) = None"
    proof (rule ccontr)
      assume "active_of w reportId (Tag_Id x) \<noteq> None"
      then obtain a where "active_of w reportId (Tag_Id x) = Some a" by auto
      from server_list_complete [OF assms(2,3) this] obtain s where
        "s \<in> set serverList" "Tag_Id s = Tag_Id x" by blast
      then have "Tag_Id x \<in> Tag_Id ` set serverList" by (metis imageI)
      with k(2) show False by simp
    qed
    with k(1) assms(4,5) InsertOp show ?thesis by auto
  next
    case (UpdateOp x)
    then show ?thesis by simp
  next
    case (DeleteOp x)
    then show ?thesis by simp
  qed
  have "\<exists>w'. forEach (apply_op reportId) ?cops w = Inr w'"
    unfolding forEach_ops_Inr_iff [OF diff_ops_distinct [OF d assms(6)]]
    using assms(1) ok by blast
  then show ?thesis unfolding update_eq_ops [OF assms(1,3) d] .
qed

text \<open>
  Claim C1, as amended. Let the client list give one active flag per tag id
  (entries of the same tag id agree), and let the store satisfy the unique index
  on \<open>(report_id, tag_id)\<close> and the two foreign keys of \<open>report_tag\<close>. When
  \<open>UpdateReportTagListByReportId\<close> returns normally, every tag id of the client
  list has an association with the report whose flag is the client's, no other tag
  id has an association with the report, the associations of other reports are
  untouched, and the store still satisfies its constraints.
\<close>

theorem update_reaches_client_state:
  assumes "UpdateReportTagListByReportId rangeOrder w reportId clientList = Inr w'"
    and "\<forall>xs. mset (rangeOrder xs) = mset xs"
    and "store_consistent w"
    and "flags_agree clientList"
  shows "(\<forall>c\<in>set clientList. active_of w' reportId (Tag_Id c) = Some (Active c)) \<and>
         (\<forall>k. k \<notin> Tag_Id ` set clientList \<longrightarrow> active_of w' reportId k = None) \<and>
         (\<forall>r k. r \<noteq> reportId \<longrightarrow> active_of w' r k = active_of w r k) \<and>
         store_consistent w'"
proof -
  note r = update_result [OF assms]
  have 1: "\<forall>c\<in>set clientList. active_of w' reportId (Tag_Id c) = Some (Active c)"
    using r(1) by blast
  have 2: "\<forall>k. k \<notin> Tag_Id ` set clientList \<longrightarrow> active_of w' reportId k = None"
    using r(2) by blast
  have 3: "\<forall>r k. r \<noteq> reportId \<longrightarrow> active_of w' r k = active_of w r k"
    using r(3) by simp
  from 1 2 3 r(4) show ?thesis by (intro conjI)
qed

text \<open>
  Whatever can be read back after a successful update differs from the client list
  in nothing.
\<close>

lemma rediff_empty_of_read:
  assumes "UpdateReportTagListByReportId rangeOrder w reportId clientList = Inr w'"
    and "\<forall>xs. mset (rangeOrder xs) = mset xs"
    and "store_consistent w"
    and "flags_agree clientList"
    and "GetReportTagListByReportId w' reportId = Inr serverList'"
    and "\<forall>xs. mset (rangeOrder' xs) = mset xs"
  shows "tag_diff rangeOrder' serverList' clientList = ([], [], [])"
proof -
  note r = update_result [OF assms(1-4)]
  obtain ins upd del where d: "tag_diff rangeOrder' serverList' clientList = (ins, upd, del)"
    by (cases "tag_diff rangeOrder' serverList' clientList") auto
  note p = tag_diff_parts [OF d assms(6)]
  have ids: "Tag_Id ` set serverList' = Tag_Id ` set clientList"
  proof (intro equalityI subsetI)
    fix k assume "k \<in> Tag_Id ` set serverList'"
    then obtain s where s: "s \<in> set serverList'" "Tag_Id s = k" by auto
    from server_list_sound [OF r(4) assms(5) s(1)] s(2)
    have "active_of w' reportId k \<noteq> None" by simp
    with r(2) [of k] show "k \<in> Tag_Id ` set clientList" by blast
  next
    fix k assume "k \<in> Tag_Id ` set clientList"
    then obtain c where c: "c \<in> set clientList" "Tag_Id c = k" by auto
    from r(1) [OF c(1)] c(2) have "active_of w' reportId k = Some (Active c)" by simp
    from server_list_complete [OF r(4) assms(5) this]
    show "k \<in> Tag_Id ` set serverList'" by auto
  qed
  from p(2) ids have i: "ins = []" by simp
  from p(5) ids have e: "del = []" by simp
  have "set upd = {}"
  proof (rule ccontr)
    assume "set upd \<noteq> {}"
    then obtain x where "x \<in> set upd" by (cases upd) auto
    then have x: "x \<in> set (updates_of clientList (list_to_map serverList'))"
      unfolding p(7) .
    from updates_of_differ [OF x] obtain s where
      s: "map_of (list_to_map serverList') (Tag_Id x) = Some s" "Active s \<noteq> Active x" by blast
    from map_of_SomeD [OF s(1)] have m: "s \<in> set serverList'" "Tag_Id s = Tag_Id x"
      using list_to_map_entry by blast+
    from server_list_sound [OF r(4) assms(5) m(1)] m(2)
    have "active_of w' reportId (Tag_Id x) = Some (Active s)" by simp
    moreover from x have "x \<in> set clientList" using updates_of_subset by blast
    from r(1) [OF this] have "active_of w' reportId (Tag_Id x) = Some (Active x)" .
    ultimately show False using s(2) by simp
  qed
  then have "upd = []" by simp
  with d i e show ?thesis by simp
qed

text \<open>
  After a successful update the tags of the report can be read back when every
  catalogue tag that the client list names has a colour: the rows of the report
  are then rows of client tags only.
\<close>

lemma read_back_returns:
  assumes u: "UpdateReportTagListByReportId ro w r C = Inr w'"
    and ro: "\<forall>xs. mset (ro xs) = mset xs"
    and sc: "store_consistent w"
    and fa: "flags_agree C"
    and col: "\<forall>t\<in>set (tag w). tag_id t \<in> Tag_Id ` set C \<longrightarrow> tag_color t \<noteq> None"
  shows "\<exists>S'. GetReportTagListByReportId w' r = Inr S'"
proof -
  from u obtain S ins upd del where rch: "dbReachable w"
    and f: "forEach (apply_op r) (map InsertOp ins @ map UpdateOp upd @ map DeleteOp del) w = Inr w'"
    by (rule update_as_ops)
  note fr = forEach_ops_frame [OF f]
  from fr rch have rch': "dbReachable w'" by simp
  from fr have tg: "tag w' = tag w" by simp
  note res = update_result [OF u ro sc fa]
  have "\<forall>p\<in>set (report_tag_join w' r). tag_color (fst p) \<noteq> None"
  proof
    fix p assume "p \<in> set (report_tag_join w' r)"
    then obtain t rt where p: "p = (t, rt_active rt)"
      and rt: "rt \<in> set (report_tag w')" "rt_report_id rt = r"
      and t: "t \<in> set (tag w')" "tag_id t = rt_tag_id rt"
      unfolding set_report_tag_join by blast
    from rt have "active_of w' r (rt_tag_id rt) \<noteq> None"
      unfolding active_of_None_iff by blast
    with res(2) [of "rt_tag_id rt"] have "rt_tag_id rt \<in> Tag_Id ` set C" by blast
    with t(2) have "tag_id t \<in> Tag_Id ` set C" by simp
    moreover from t(1) tg have "t \<in> set (tag w)" by simp
    ultimately have "tag_color t \<noteq> None" using col by blast
    then show "tag_color (fst p) \<noteq> None" unfolding p by simp
  qed
  from scan_tag_rows_coloured [OF this] obtain S' where
    "scan_tag_rows (report_tag_join w' r) = Inr S'" ..
  with rch' have "GetReportTagListByReportId w' r = Inr S'"
    by (simp add: GetReportTagListByReportId_def)
  then show ?thesis ..
qed

text \<open>
  Claim C6, as amended. Let the client list agree with itself on the flag of every
  tag it names, let the store satisfy its constraints, and let every tag of the
  catalogue that the client list names have a colour (the column is nullable, and
  a NULL colour cannot be scanned). When \<open>UpdateReportTagListByReportId\<close> returns
  normally, the tags of the report can be read back, and the diff of what is read
  against the same client list is three empty lists, whatever the order in which
  the maps are ranged over.
\<close>

theorem rediff_is_empty:
  assumes "UpdateReportTagListByReportId rangeOrder w reportId clientList = Inr w'"
    and "\<forall>xs. mset (rangeOrder xs) = mset xs"
    and "store_consistent w"
    and "flags_agree clientList"
    and "\<forall>t\<in>set (tag w). tag_id t \<in> Tag_Id ` set clientList \<longrightarrow> tag_color t \<noteq> None"
    and "\<forall>xs. mset (rangeOrder' xs) = mset xs"
  shows "\<exists>serverList'. GetReportTagListByReportId w' reportId = Inr serverList' \<and>
           tag_diff rangeOrder' serverList' clientList = ([], [], [])"
proof -
  from read_back_returns [OF assms(1-5)] obtain S' where
    S': "GetReportTagListByReportId w' reportId = Inr S'" ..
  from rediff_empty_of_read [OF assms(1-4) S' assms(6)]
  have "tag_diff rangeOrder' S' clientList = ([], [], [])" .
  with S' show ?thesis by blast
qed

lemma rev_permutes: "\<forall>xs. mset (rev xs) = mset xs"
  by simp

lemma example_world_consistent: "store_consistent example_world"
  by (simp add: store_consistent_def example_world_def)

lemma example_client_agrees: "flags_agree example_client"
  by (simp add: flags_agree_def example_client_def)

lemma example_colours:
  "\<forall>t\<in>set (tag example_world). tag_id t \<in> Tag_Id ` set example_client \<longrightarrow> tag_color t \<noteq> None"
  by (simp add: example_world_def)

lemma example_update_returns:
  "\<not> isl (UpdateReportTagListByReportId rev example_world 1 example_client)"
  by code_simp

text \<open>
  The amended claim C1 in the example world: report 1 has tag 1 active and tag 2
  inactive, the client sends tag 1 inactive and tag 3 active.
\<close>

theorem update_reaches_client_state_witness:
  "store_consistent example_world \<and> flags_agree example_client \<and>
   \<not> isl (UpdateReportTagListByReportId rev example_world 1 example_client) \<and>
   active_of (projr (UpdateReportTagListByReportId rev example_world 1 example_client)) 1 1
     = Some False \<and>
   active_of (projr (UpdateReportTagListByReportId rev example_world 1 example_client)) 1 3
     = Some True \<and>
   active_of (projr (UpdateReportTagListByReportId rev example_world 1 example_client)) 1 2
     = None"
proof -
  from example_update_returns obtain w' where
    w': "UpdateReportTagListByReportId rev example_world 1 example_client = Inr w'"
    by (cases "UpdateReportTagListByReportId rev example_world 1 example_client") auto
  note t = update_reaches_client_state
    [OF w' rev_permutes example_world_consistent example_client_agrees]
  from t have a: "\<forall>c\<in>set example_client. active_of w' 1 (Tag_Id c) = Some (Active c)"
    by (rule conjunct1)
  from t have b: "\<forall>k. k \<notin> Tag_Id ` set example_client \<longrightarrow> active_of w' 1 k = None"
    by (elim conjE)
  from a have 1: "active_of w' 1 1 = Some False" "active_of w' 1 3 = Some True"
    by (simp_all add: example_client_def)
  have "(2::int64) \<notin> Tag_Id ` set example_client" by (simp add: example_client_def)
  with b have 2: "active_of w' 1 2 = None" by blast
  from 1 2 example_world_consistent example_client_agrees example_update_returns
  show ?thesis by (simp add: w')
qed

text \<open>
  Claim C1 as stated fails for a client list that names tag 1 twice, first active
  and then inactive. The loop matches the first entry with the server's active
  row, drops the tag from both maps and never looks at the second entry: the
  server keeps the flag \<open>True\<close>, while the client list (and the map built from
  it) says \<open>False\<close>.
\<close>

theorem update_conflicting_flags_counterexample:
  "\<not> isl (UpdateReportTagListByReportId rev example_world 1 conflicting_client) \<and>
   \<lparr>Tag_Id = 1, Tag_Name = ''Fiction'', Tag_Color = ''#000000'', Active = False\<rparr>
     \<in> set conflicting_client \<and>
   active_of (projr (UpdateReportTagListByReportId rev example_world 1 conflicting_client)) 1 1
     = Some True"
  by code_simp

text \<open>The amended claim C6 in the example world, for report 1 and the example client list.\<close>

theorem rediff_is_empty_witness:
  "store_consistent example_world \<and> flags_agree example_client \<and>
   \<not> isl (UpdateReportTagListByReportId rev example_world 1 example_client) \<and>
   \<not> isl (GetReportTagListByReportId
       (projr (UpdateReportTagListByReportId rev example_world 1 example_client)) 1) \<and>
   tag_diff rev
     (projr (GetReportTagListByReportId
       (projr (UpdateReportTagListByReportId rev example_world 1 example_client)) 1))
     example_client = ([], [], [])"
proof -
  from example_update_returns obtain w' where
    w': "UpdateReportTagListByReportId rev example_world 1 example_client = Inr w'"
    by (cases "UpdateReportTagListByReportId rev example_world 1 example_client") auto
  from rediff_is_empty [OF w' rev_permutes example_world_consistent example_client_agrees
      example_colours rev_permutes]
  obtain S' where S': "GetReportTagListByReportId w' 1 = Inr S'"
    and d: "tag_diff rev S' example_client = ([], [], [])" by blast
  from example_world_consistent example_client_agrees example_update_returns S' d
  show ?thesis by (simp add: w')
qed

text \<open>
  Claim C6 as stated fails in two ways. For the client list that names tag 1 twice,
  on report 2, which has no tag: the insert takes the last entry of tag 1
  (inactive) from the map, and the second diff compares the first entry (active)
  with it and schedules an update. For the example client list on report 1, when
  tag 3 has no colour: the update returns normally, and reading the tags of the
  report back fails on the NULL colour, so there is no new server state to diff
  against.
\<close>

theorem rediff_conflicting_flags_counterexample:
  "\<not> isl (UpdateReportTagListByReportId rev example_world 2 conflicting_client) \<and>
   GetReportTagListByReportId
       (projr (UpdateReportTagListByReportId rev example_world 2 conflicting_client)) 2 =
     Inr [\<lparr>Tag_Id = 1, Tag_Name = ''Fiction'', Tag_Color = ''#000000'', Active = False\<rparr>] \<and>
   tag_diff rev
     [\<lparr>Tag_Id = 1, Tag_Name = ''Fiction'', Tag_Color = ''#000000'', Active = False\<rparr>]
     conflicting_client =
     ([], [\<lparr>Tag_Id = 1, Tag_Name = ''Fiction'', Tag_Color = ''#000000'', Active = True\<rparr>], []) \<and>
   \<not> isl (UpdateReportTagListByReportId rev example_world_null_colour 1 example_client) \<and>
   GetReportTagListByReportId
       (projr (UpdateReportTagListByReportId rev example_world_null_colour 1 example_client)) 1 =
     Inl ScanNull"
  by code_simp



end
